theory Spec2Isabelle
  imports
    Complex_Main
    "HOL-Library.Word"
    "HOL-Library.AList"
    "HOL-Library.Sublist"
    "HOL-Library.Char_ord"
    "HOL-Library.List_Lexorder"
begin

section \<open>Data model\<close>

text \<open>
  The development follows \<^verbatim>\<open>src/utils.py\<close> and \<^verbatim>\<open>src/client.py\<close> of the
  Hamachi Workshop Sync client. Python attributes with a leading underscore
  (\<^verbatim>\<open>_index\<close>, \<^verbatim>\<open>_sock\<close>, \<^verbatim>\<open>_folder_class\<close>, \<^verbatim>\<open>_folder_override\<close>) lose it here.
  Python dictionaries are association lists in insertion order, looked up with
  \<^const>\<open>map_of\<close>.
\<close>

type_synonym byte = "8 word"

text \<open>
  A \<^verbatim>\<open>pathlib.Path\<close> is the list of its components. Joining with \<^verbatim>\<open>/\<close> appends
  components; absolute right operands, \<^verbatim>\<open>..\<close> and symbolic links are not resolved.
\<close>

type_synonym path = "string list"

text \<open>\<^verbatim>\<open>utils.FileEntry\<close>; the field \<^verbatim>\<open>size\<close> is called \<open>size_bytes\<close>.\<close>

record FileEntry =
  rel_folder :: string
  name :: string
  size_bytes :: int
  mtime :: real
  sha256 :: string
  kind :: string

text \<open>The strings \<^verbatim>\<open>'assets'\<close>, \<^verbatim>\<open>'mods'\<close>, \<^verbatim>\<open>'mixed'\<close> of \<^verbatim>\<open>_folder_class\<close>.\<close>

datatype fclass = assets | mods | mixed

text \<open>
  \<^verbatim>\<open>SyncClient._group_index\<close>: \<^verbatim>\<open>groups.setdefault(fe.rel_folder, []).append(fe)\<close>
  for every value of the index, in the order of the index.
\<close>

definition setdefault_append ::
  "(string \<times> FileEntry list) list \<Rightarrow> FileEntry \<Rightarrow> (string \<times> FileEntry list) list"
where
  "setdefault_append groups fe =
     AList.map_default (rel_folder fe) [fe] (\<lambda>l. l @ [fe]) groups"

definition group_index ::
  "(string \<times> FileEntry) list \<Rightarrow> (string \<times> FileEntry list) list"
where
  "group_index idx = foldl (\<lambda>groups (k, fe). setdefault_append groups fe) [] idx"

text \<open>
  \<^verbatim>\<open>SyncClient._classify_folders\<close>: the class of one group, and the dictionary
  \<^verbatim>\<open>_folder_class\<close> rebuilt from the empty one.
\<close>

definition classify_files :: "FileEntry list \<Rightarrow> fclass" where
  "classify_files files =
     (let has_crp = list_ex (\<lambda>f. kind f = ''crp'') files;
          has_dll = list_ex (\<lambda>f. kind f = ''dll'') files
      in if has_crp \<and> has_dll then mixed
         else if has_crp then assets
         else if has_dll then mods
         else assets)"

definition classify_folders :: "(string \<times> FileEntry) list \<Rightarrow> (string \<times> fclass) list" where
  "classify_folders idx =
     foldl (\<lambda>fc (gid, files). AList.update gid (classify_files files) fc) []
       (group_index idx)"

text \<open>The descriptors of the manifest that belong to one folder ID.\<close>

definition folder_files :: "(string \<times> FileEntry) list \<Rightarrow> string \<Rightarrow> FileEntry list" where
  "folder_files idx gid = filter (\<lambda>e. rel_folder e = gid) (map snd idx)"

text \<open>A manifest with a mixed folder, a mods folder and a folder with neither kind.\<close>

definition demo_index :: "(string \<times> FileEntry) list" where
  "demo_index =
     [(''7/a.crp'', \<lparr>rel_folder = ''7'', name = ''a.crp'', size_bytes = 1, mtime = 0,
          sha256 = ''h1'', kind = ''crp''\<rparr>),
      (''8/m.dll'', \<lparr>rel_folder = ''8'', name = ''m.dll'', size_bytes = 2, mtime = 0,
          sha256 = ''h2'', kind = ''dll''\<rparr>),
      (''7/b.dll'', \<lparr>rel_folder = ''7'', name = ''b.dll'', size_bytes = 3, mtime = 0,
          sha256 = ''h3'', kind = ''dll''\<rparr>),
      (''9/r.txt'', \<lparr>rel_folder = ''9'', name = ''r.txt'', size_bytes = 4, mtime = 0,
          sha256 = ''h4'', kind = ''other''\<rparr>)]"

section \<open>Strings and paths\<close>

text \<open>
  A string is the list of its code points, and a \<open>char\<close> is a code point below 256.
  On that range \<^verbatim>\<open>str.isdigit\<close> holds of a non-empty string of the ten decimal
  digits and of the superscript digits U+00B2, U+00B3 and U+00B9, which Unicode
  also gives the digit property. \<^verbatim>\<open>str.split("/")\<close> cuts at every slash, and
  \<^verbatim>\<open>Path(s)\<close> drops the empty and the \<^verbatim>\<open>.\<close> components.
\<close>

definition digit_char :: "char \<Rightarrow> bool" where
  "digit_char c \<longleftrightarrow>
     c \<in> set ''0123456789'' \<or> c = CHR 0xB2 \<or> c = CHR 0xB3 \<or> c = CHR 0xB9"

definition isdigit :: "string \<Rightarrow> bool" where
  "isdigit s = (s \<noteq> [] \<and> list_all digit_char s)"

fun split_slash :: "string \<Rightarrow> string list" where
  "split_slash [] = [[]]"
| "split_slash (c # cs) =
     (if c = CHR ''/'' then [] # split_slash cs
      else (case split_slash cs of
              w # ws \<Rightarrow> (c # w) # ws
            | [] \<Rightarrow> [[c]]))"

definition Path :: "string \<Rightarrow> path" where
  "Path s = filter (\<lambda>w. w \<noteq> [] \<and> w \<noteq> ''.'') (split_slash s)"

text \<open>\<^verbatim>\<open>p / s\<close> for a path \<open>p\<close> and a string \<open>s\<close>.\<close>

definition joinpath :: "path \<Rightarrow> string \<Rightarrow> path" where
  "joinpath p s = p @ Path s"

text \<open>\<^verbatim>\<open>PurePath.as_posix\<close> of a relative path.\<close>

fun as_posix :: "path \<Rightarrow> string" where
  "as_posix [] = ''.''"
| "as_posix [w] = w"
| "as_posix (w # ws) = w @ ''/'' @ as_posix ws"

text \<open>
  \<^verbatim>\<open>PurePath.suffix\<close> of a file name: the part from the last dot on, unless that dot
  is the first or the last character. \<^verbatim>\<open>str.lower\<close> on code points below 256
  moves the capital letters A to Z and U+00C0 to U+00DE (but not the sign U+00D7)
  up by 32.
\<close>

definition suffix_of :: "string \<Rightarrow> string" where
  "suffix_of nm =
     (let r = takeWhile (\<lambda>c. c \<noteq> CHR ''.'') (rev nm)
      in if CHR ''.'' \<in> set nm \<and> r \<noteq> [] \<and> length r + 1 < length nm
         then CHR ''.'' # rev r else [])"

definition lower_char :: "char \<Rightarrow> char" where
  "lower_char c =
     (let n = (of_char c :: nat)
      in if (65 \<le> n \<and> n \<le> 90) \<or> (192 \<le> n \<and> n \<le> 222 \<and> n \<noteq> 215)
         then char_of (n + 32) else c)"

definition kind_of_name :: "string \<Rightarrow> string" where
  "kind_of_name nm =
     (let suf = map lower_char (suffix_of nm)
      in if suf = ''.crp'' then ''crp'' else if suf = ''.dll'' then ''dll'' else ''other'')"

section \<open>The local file system\<close>

text \<open>
  The local file system is a table from paths to nodes. \<open>undeletable\<close> lists the
  paths on which \<^verbatim>\<open>unlink\<close> and \<^verbatim>\<open>rmdir\<close> fail (a file in use, a missing
  permission). Every exception of the Python code is a value of \<open>error\<close>.
\<close>

datatype node = RegFile "byte list" | Directory

record filesystem =
  nodes :: "(path \<times> node) list"
  undeletable :: "path list"

datatype error =
    ConnectionError | StructError | DecodeError
  | IsADirectoryError | NotADirectoryError | FileNotFoundError | FileExistsError
  | PermissionError | OSError | KeyError | TypeError | AttributeError

definition lookup :: "filesystem \<Rightarrow> path \<Rightarrow> node option" where
  "lookup fs p = map_of (nodes fs) p"

definition path_exists :: "filesystem \<Rightarrow> path \<Rightarrow> bool" where
  "path_exists fs p = (lookup fs p \<noteq> None)"

definition is_dir :: "filesystem \<Rightarrow> path \<Rightarrow> bool" where
  "is_dir fs p = (lookup fs p = Some Directory)"

definition is_file :: "filesystem \<Rightarrow> path \<Rightarrow> bool" where
  "is_file fs p = (case lookup fs p of Some (RegFile content) \<Rightarrow> True | _ \<Rightarrow> False)"

definition st_size :: "filesystem \<Rightarrow> path \<Rightarrow> int" where
  "st_size fs p = (case lookup fs p of Some (RegFile content) \<Rightarrow> int (length content) | _ \<Rightarrow> 0)"

text \<open>\<^verbatim>\<open>Path.iterdir\<close> raises on a path that is not a directory.\<close>

definition iterdir :: "filesystem \<Rightarrow> path \<Rightarrow> error + path list" where
  "iterdir fs base =
     (if is_dir fs base
      then Inr (filter (\<lambda>p. p \<noteq> [] \<and> butlast p = base) (map fst (nodes fs)))
      else Inl NotADirectoryError)"

text \<open>\<^verbatim>\<open>Path.rglob("*")\<close>: everything below a directory, nothing for another path.\<close>

definition rglob :: "filesystem \<Rightarrow> path \<Rightarrow> path list" where
  "rglob fs d =
     (if is_dir fs d then filter (\<lambda>p. strict_prefix d p) (map fst (nodes fs)) else [])"

text \<open>
  \<^verbatim>\<open>utils.sha256_of_file\<close>. The digest \<open>H\<close> stands for \<^verbatim>\<open>hashlib.sha256\<close> with
  \<^verbatim>\<open>hexdigest\<close>; reading in blocks of 1 MiB feeds it the whole content.
\<close>

definition sha256_of_file :: "(byte list \<Rightarrow> string) \<Rightarrow> filesystem \<Rightarrow> path \<Rightarrow> error + string" where
  "sha256_of_file H fs p =
     (case lookup fs p of
        Some (RegFile content) \<Rightarrow> Inr (H content)
      | Some Directory \<Rightarrow> Inl IsADirectoryError
      | None \<Rightarrow> Inl FileNotFoundError)"

section \<open>The client and its plan\<close>

text \<open>
  A socket is the chunks its next \<^verbatim>\<open>recv\<close> calls deliver (none left: the peer has
  closed) and the bytes sent so far.
\<close>

record socket =
  inbound :: "byte list list"
  outbound :: "byte list"

record SyncClient =
  assets_path :: path
  mods_path :: path
  sock :: "socket option"
  index :: "(string \<times> FileEntry) list"
  folder_class :: "(string \<times> fclass) list"
  folder_override :: "(string \<times> fclass) list"

datatype action = NEW | UPDATE | SAME | DELETE

datatype level = folder_level | file_level

record PlanItem =
  key :: string
  entry :: FileEntry
  target :: path
  action :: action
  level :: level

text \<open>\<^verbatim>\<open>SyncClient.get_folder_target\<close>.\<close>

definition get_folder_target :: "SyncClient \<Rightarrow> string \<Rightarrow> fclass" where
  "get_folder_target c gid =
     (case map_of (folder_override c) gid of
        Some dest \<Rightarrow> dest
      | None \<Rightarrow>
          (let cls = (case map_of (folder_class c) gid of Some x \<Rightarrow> x | None \<Rightarrow> assets)
           in if cls = mixed then assets else cls))"

text \<open>\<^verbatim>\<open>utils.build_client_target\<close>.\<close>

definition build_client_target :: "FileEntry \<Rightarrow> path \<Rightarrow> path \<Rightarrow> fclass \<Rightarrow> path" where
  "build_client_target e ap mp dest_base =
     (let base = (if dest_base = assets then ap else mp)
      in joinpath (joinpath base (rel_folder e)) (name e))"

text \<open>
  \<^verbatim>\<open>SyncClient._classify_file_action\<close>; \<^verbatim>\<open>build_plan\<close> repeats the same lines in
  both of its loops over the files of a folder.
\<close>

definition classify_file_action ::
  "(byte list \<Rightarrow> string) \<Rightarrow> SyncClient \<Rightarrow> filesystem \<Rightarrow> FileEntry \<Rightarrow> fclass \<Rightarrow> error + action"
where
  "classify_file_action H c fs fe dest_base =
     (let t = build_client_target fe (assets_path c) (mods_path c) dest_base
      in if path_exists fs t
         then (case sha256_of_file H fs t of
                 Inl err \<Rightarrow> Inl err
               | Inr h \<Rightarrow> Inr (if h = sha256 fe then SAME else UPDATE))
         else Inr NEW)"

text \<open>A \<^verbatim>\<open>for\<close> loop that collects results and stops at the first exception.\<close>

fun traverse :: "('a \<Rightarrow> error + 'b) \<Rightarrow> 'a list \<Rightarrow> error + 'b list" where
  "traverse f [] = Inr []"
| "traverse f (x # xs) =
     (case f x of
        Inl err \<Rightarrow> Inl err
      | Inr y \<Rightarrow> (case traverse f xs of Inl err \<Rightarrow> Inl err | Inr ys \<Rightarrow> Inr (y # ys)))"

definition folder_entry :: "string \<Rightarrow> FileEntry" where
  "folder_entry gid =
     \<lparr>rel_folder = gid, name = ''(folder)'', size_bytes = 0, mtime = 0, sha256 = '''',
      kind = ''other''\<rparr>"

definition capitalize :: "fclass \<Rightarrow> string" where
  "capitalize d = (case d of assets \<Rightarrow> ''Assets'' | mods \<Rightarrow> ''Mods'' | mixed \<Rightarrow> ''Mixed'')"

text \<open>The folder action from the set \<^verbatim>\<open>statuses\<close> of the file actions.\<close>

definition folder_action :: "action list \<Rightarrow> action" where
  "folder_action statuses =
     (if set statuses = {SAME} then SAME
      else if UPDATE \<in> set statuses then UPDATE
      else NEW)"

definition file_item ::
  "(byte list \<Rightarrow> string) \<Rightarrow> SyncClient \<Rightarrow> filesystem \<Rightarrow> string \<Rightarrow> fclass \<Rightarrow> FileEntry \<Rightarrow>
   error + PlanItem"
where
  "file_item H c fs gid dest_base e =
     (case classify_file_action H c fs e dest_base of
        Inl err \<Rightarrow> Inl err
      | Inr a \<Rightarrow>
          Inr \<lparr>key = gid @ ''/'' @ name e, entry = e,
               target = build_client_target e (assets_path c) (mods_path c) dest_base,
               action = a, level = file_level\<rparr>)"

text \<open>The body of the loop of \<^verbatim>\<open>build_plan\<close> over the groups: one folder.\<close>

definition plan_group ::
  "(byte list \<Rightarrow> string) \<Rightarrow> SyncClient \<Rightarrow> filesystem \<Rightarrow> string \<times> FileEntry list \<Rightarrow>
   error + PlanItem list"
where
  "plan_group H c fs g =
     (case g of (gid, files) \<Rightarrow>
        (let dest_base = get_folder_target c gid
         in case traverse (\<lambda>e. classify_file_action H c fs e dest_base) files of
              Inl err \<Rightarrow> Inl err
            | Inr statuses \<Rightarrow>
                (case traverse (file_item H c fs gid dest_base) files of
                   Inl err \<Rightarrow> Inl err
                 | Inr items \<Rightarrow>
                     Inr (\<lparr>key = gid, entry = folder_entry gid,
                            target = Path (''<'' @ capitalize dest_base @ ''>/'' @ gid),
                            action = folder_action statuses, level = folder_level\<rparr>
                          # items))))"

text \<open>
  The numeric directories right under one local root, and \<^verbatim>\<open>local_ids\<close> over both
  roots. The Python set is a list without repetitions here; its order is not fixed
  by the source.
\<close>

definition local_ids_under :: "filesystem \<Rightarrow> path \<Rightarrow> error + string list" where
  "local_ids_under fs base =
     (if \<not> path_exists fs base then Inr []
      else (case iterdir fs base of
              Inl err \<Rightarrow> Inl err
            | Inr ds \<Rightarrow> Inr (map last (filter (\<lambda>d. is_dir fs d \<and> isdigit (last d)) ds))))"

definition local_ids :: "SyncClient \<Rightarrow> filesystem \<Rightarrow> error + string list" where
  "local_ids c fs =
     (case local_ids_under fs (assets_path c) of
        Inl err \<Rightarrow> Inl err
      | Inr a \<Rightarrow>
          (case local_ids_under fs (mods_path c) of
             Inl err \<Rightarrow> Inl err
           | Inr m \<Rightarrow> Inr (remdups (a @ m))))"

text \<open>
  The items of one deletion candidate: the folder, then every regular file below it
  under either root. \<open>st_mtime\<close> stands for the time stamp \<^verbatim>\<open>stat\<close> reports.
\<close>

definition delete_file_item ::
  "(path \<Rightarrow> real) \<Rightarrow> filesystem \<Rightarrow> string \<Rightarrow> path \<Rightarrow> path \<Rightarrow> PlanItem"
where
  "delete_file_item st_mtime fs gid d f =
     (let rel = as_posix (drop (length d) f)
      in \<lparr>key = ''(delete)/'' @ gid @ ''/'' @ rel,
          entry = \<lparr>rel_folder = gid, name = rel, size_bytes = st_size fs f,
                   mtime = st_mtime f, sha256 = '''', kind = kind_of_name (last f)\<rparr>,
          target = f, action = DELETE, level = file_level\<rparr>)"

definition delete_items ::
  "(path \<Rightarrow> real) \<Rightarrow> SyncClient \<Rightarrow> filesystem \<Rightarrow> string \<Rightarrow> PlanItem list"
where
  "delete_items st_mtime c fs gid =
     \<lparr>key = ''(delete)/'' @ gid, entry = folder_entry gid,
      target = joinpath (assets_path c) gid, action = DELETE, level = folder_level\<rparr>
     # concat (map (\<lambda>base.
          (let d = joinpath base gid
           in if path_exists fs d
              then map (delete_file_item st_mtime fs gid d) (filter (is_file fs) (rglob fs d))
              else []))
        [assets_path c, mods_path c])"

text \<open>\<^verbatim>\<open>SyncClient.build_plan\<close>.\<close>

definition build_plan ::
  "(byte list \<Rightarrow> string) \<Rightarrow> (path \<Rightarrow> real) \<Rightarrow> SyncClient \<Rightarrow> filesystem \<Rightarrow> error + PlanItem list"
where
  "build_plan H st_mtime c fs =
     (let groups = group_index (index c)
      in case traverse (plan_group H c fs) groups of
           Inl err \<Rightarrow> Inl err
         | Inr parts \<Rightarrow>
             (case local_ids c fs of
                Inl err \<Rightarrow> Inl err
              | Inr ids \<Rightarrow>
                  (let missing_ids = filter (\<lambda>gid. gid \<notin> set (map fst groups)) ids
                   in Inr (concat parts @ concat (map (delete_items st_mtime c fs) missing_ids)))))"

text \<open>The actions of the file-level items of one folder ID in a plan.\<close>

definition child_actions :: "PlanItem list \<Rightarrow> string \<Rightarrow> action list" where
  "child_actions plan gid =
     map action (filter (\<lambda>j. level j = file_level \<and> rel_folder (entry j) = gid) plan)"

text \<open>
  A client and a local file system for the examples: folder 7 has one file with the
  manifest's hash and one with another, folders 8 and 9 are not there yet, and
  folder 99 is local only.
\<close>

definition demo_client :: SyncClient where
  "demo_client =
     \<lparr>assets_path = [''assets''], mods_path = [''mods''], sock = None,
      index = demo_index, folder_class = classify_folders demo_index,
      folder_override = []\<rparr>"

definition demo_fs :: filesystem where
  "demo_fs =
     \<lparr>nodes =
        [([''assets''], Directory),
         ([''mods''], Directory),
         ([''assets'', ''7''], Directory),
         ([''assets'', ''7'', ''a.crp''], RegFile [1, 2, 3]),
         ([''assets'', ''7'', ''b.dll''], RegFile [9]),
         ([''assets'', ''99''], Directory),
         ([''assets'', ''99'', ''x.crp''], RegFile [1]),
         ([''assets'', ''99'', ''y.txt''], RegFile [2]),
         ([''assets'', ''99'', ''z.dll''], RegFile [3])],
      undeletable = []\<rparr>"

definition demo_H :: "byte list \<Rightarrow> string" where
  "demo_H content = (if content = [1, 2, 3] then ''h1'' else ''h0'')"

definition demo_plan :: "PlanItem list" where
  "demo_plan =
     [\<lparr>key = ''7'', entry = folder_entry ''7'', target = [''<Assets>'', ''7''],
        action = UPDATE, level = folder_level\<rparr>,
      \<lparr>key = ''7/a.crp'', entry = snd (demo_index ! 0),
        target = [''assets'', ''7'', ''a.crp''], action = SAME, level = file_level\<rparr>,
      \<lparr>key = ''7/b.dll'', entry = snd (demo_index ! 2),
        target = [''assets'', ''7'', ''b.dll''], action = UPDATE, level = file_level\<rparr>,
      \<lparr>key = ''8'', entry = folder_entry ''8'', target = [''<Mods>'', ''8''],
        action = NEW, level = folder_level\<rparr>,
      \<lparr>key = ''8/m.dll'', entry = snd (demo_index ! 1),
        target = [''mods'', ''8'', ''m.dll''], action = NEW, level = file_level\<rparr>,
      \<lparr>key = ''9'', entry = folder_entry ''9'', target = [''<Assets>'', ''9''],
        action = NEW, level = folder_level\<rparr>,
      \<lparr>key = ''9/r.txt'', entry = snd (demo_index ! 3),
        target = [''assets'', ''9'', ''r.txt''], action = NEW, level = file_level\<rparr>,
      \<lparr>key = ''(delete)/99'', entry = folder_entry ''99'', target = [''assets'', ''99''],
        action = DELETE, level = folder_level\<rparr>,
      \<lparr>key = ''(delete)/99/x.crp'',
        entry = \<lparr>rel_folder = ''99'', name = ''x.crp'', size_bytes = 1, mtime = 0,
                 sha256 = '''', kind = ''crp''\<rparr>,
        target = [''assets'', ''99'', ''x.crp''], action = DELETE, level = file_level\<rparr>,
      \<lparr>key = ''(delete)/99/y.txt'',
        entry = \<lparr>rel_folder = ''99'', name = ''y.txt'', size_bytes = 1, mtime = 0,
                 sha256 = '''', kind = ''other''\<rparr>,
        target = [''assets'', ''99'', ''y.txt''], action = DELETE, level = file_level\<rparr>,
      \<lparr>key = ''(delete)/99/z.dll'',
        entry = \<lparr>rel_folder = ''99'', name = ''z.dll'', size_bytes = 1, mtime = 0,
                 sha256 = '''', kind = ''dll''\<rparr>,
        target = [''assets'', ''99'', ''z.dll''], action = DELETE, level = file_level\<rparr>]"

section \<open>Framing: length-prefixed messages and files\<close>

text \<open>
  \<^verbatim>\<open>socket.recv(n)\<close> returns at most \<open>n\<close> bytes of the next chunk, and no byte once
  the peer has closed. \<open>payload\<close> is everything the socket still delivers before it
  closes.
\<close>

definition recv :: "socket \<Rightarrow> nat \<Rightarrow> byte list \<times> socket" where
  "recv sk n =
     (case inbound sk of
        [] \<Rightarrow> ([], sk)
      | c # cs \<Rightarrow>
          if c = [] then ([], sk\<lparr>inbound := []\<rparr>)
          else if length c \<le> n then (c, sk\<lparr>inbound := cs\<rparr>)
          else (take n c, sk\<lparr>inbound := drop n c # cs\<rparr>))"

definition payload :: "socket \<Rightarrow> byte list" where
  "payload sk = concat (takeWhile (\<lambda>c. c \<noteq> []) (inbound sk))"

text \<open>\<^verbatim>\<open>utils.recvall\<close>: the loop with its buffer, then the function.\<close>

function recvall_loop :: "socket \<Rightarrow> nat \<Rightarrow> byte list \<Rightarrow> byte list \<times> socket" where
  "recvall_loop sk n buf =
     (if length buf < n
      then (case recv sk (n - length buf) of
              (chunk, sk') \<Rightarrow>
                if chunk = [] then (buf, sk') else recvall_loop sk' n (buf @ chunk))
      else (buf, sk))"
  by pat_completeness auto
termination
  by (relation "measure (\<lambda>(sk, n, buf). n - length buf)") (auto simp: neq_Nil_conv)

declare recvall_loop.simps [simp del]

definition recvall :: "socket \<Rightarrow> nat \<Rightarrow> byte list \<times> socket" where
  "recvall sk n = recvall_loop sk n []"

text \<open>
  \<^verbatim>\<open>struct.pack\<close> and \<^verbatim>\<open>struct.unpack\<close> for the big-endian unsigned formats
  \<^verbatim>\<open>!I\<close> (4 bytes) and \<^verbatim>\<open>!Q\<close> (8 bytes): both raise \<^verbatim>\<open>struct.error\<close>, on a
  number out of range and on a buffer of another length.
\<close>

fun nat_to_be :: "nat \<Rightarrow> nat \<Rightarrow> byte list" where
  "nat_to_be 0 n = []"
| "nat_to_be (Suc k) n = nat_to_be k (n div 256) @ [of_nat (n mod 256)]"

definition be_to_nat :: "byte list \<Rightarrow> nat" where
  "be_to_nat bs = foldl (\<lambda>a b. a * 256 + unat b) 0 bs"

definition pack_be :: "nat \<Rightarrow> nat \<Rightarrow> error + byte list" where
  "pack_be k n = (if n < 256 ^ k then Inr (nat_to_be k n) else Inl StructError)"

definition unpack_be :: "nat \<Rightarrow> byte list \<Rightarrow> error + nat" where
  "unpack_be k bs = (if length bs = k then Inr (be_to_nat bs) else Inl StructError)"


definition recv_json :: "(byte list \<Rightarrow> error + 'j) \<Rightarrow> socket \<Rightarrow> (error + 'j) \<times> socket" where
  "recv_json loads sk =
     (case recvall sk 4 of
        (raw_len, sk1) \<Rightarrow>
          if raw_len = [] then (Inl ConnectionError, sk1)
          else (case unpack_be 4 raw_len of
                  Inl err \<Rightarrow> (Inl err, sk1)
                | Inr len \<Rightarrow>
                    (case recvall sk1 len of (data, sk2) \<Rightarrow> (loads data, sk2))))"

text \<open>
  \<^verbatim>\<open>Path.mkdir(parents=True, exist_ok=True)\<close>, \<^verbatim>\<open>Path.open("wb")\<close> and the content
  a closed file is left with.
\<close>

definition mkdir_parents :: "filesystem \<Rightarrow> path \<Rightarrow> error + filesystem" where
  "mkdir_parents fs p =
     (if is_file fs p then Inl FileExistsError
      else if list_ex (is_file fs) (prefixes p) then Inl NotADirectoryError
      else Inr (fs\<lparr>nodes := nodes fs @
                 map (\<lambda>q. (q, Directory)) (filter (\<lambda>q. \<not> path_exists fs q) (prefixes p))\<rparr>))"

definition write_file :: "filesystem \<Rightarrow> path \<Rightarrow> byte list \<Rightarrow> filesystem" where
  "write_file fs p content = fs\<lparr>nodes := AList.update p (RegFile content) (nodes fs)\<rparr>"

definition open_wb :: "filesystem \<Rightarrow> path \<Rightarrow> error + filesystem" where
  "open_wb fs p =
     (if is_dir fs p then Inl IsADirectoryError
      else if \<not> is_dir fs (butlast p) then Inl FileNotFoundError
      else Inr (write_file fs p []))"

text \<open>
  The loop of \<^verbatim>\<open>utils.recv_file\<close>: \<open>fsize\<close> is the declared \<^verbatim>\<open>size\<close>, and
  \<open>writes\<close> are the chunks handed to \<^verbatim>\<open>f.write\<close>, in order.
\<close>

function recv_file_loop ::
  "socket \<Rightarrow> nat \<Rightarrow> nat \<Rightarrow> byte list list \<Rightarrow> nat \<times> byte list list \<times> socket"
where
  "recv_file_loop sk fsize written writes =
     (if written < fsize
      then (case recv sk (min (1024 * 256) (fsize - written)) of
              (chunk, sk') \<Rightarrow>
                if chunk = [] then (written, writes, sk')
                else recv_file_loop sk' fsize (written + length chunk) (writes @ [chunk]))
      else (written, writes, sk))"
  by pat_completeness auto
termination
  by (relation "measure (\<lambda>(sk, fsize, written, writes). fsize - written)")
    (auto simp: neq_Nil_conv)

declare recv_file_loop.simps [simp del]

text \<open>
  What a call hands back: the value of a Python function is \<^verbatim>\<open>None\<close> unless a
  \<^verbatim>\<open>return\<close> gives another one.
\<close>

datatype retval = NoneValue | IntValue int

text \<open>
  \<^verbatim>\<open>utils.recv_file\<close>. The result records the outcome (an exception or the returned
  value), the count \<^verbatim>\<open>written\<close> of the debug message when the function got there,
  the chunks written, the socket and the file system afterwards.
\<close>

record recv_file_result =
  outcome :: "error + retval"
  logged_written :: "nat option"
  chunks_written :: "byte list list"
  sock_after :: socket
  fs_after :: filesystem

definition recv_file :: "socket \<Rightarrow> path \<Rightarrow> filesystem \<Rightarrow> recv_file_result" where
  "recv_file sk dest fs =
     (case recvall sk 8 of
        (raw, sk1) \<Rightarrow>
          (case unpack_be 8 raw of
             Inl err \<Rightarrow>
               \<lparr>outcome = Inl err, logged_written = None, chunks_written = [],
                sock_after = sk1, fs_after = fs\<rparr>
           | Inr fsize \<Rightarrow>
               (case mkdir_parents fs (butlast dest) of
                  Inl err \<Rightarrow>
                    \<lparr>outcome = Inl err, logged_written = None, chunks_written = [],
                     sock_after = sk1, fs_after = fs\<rparr>
                | Inr fs1 \<Rightarrow>
                    (case open_wb fs1 dest of
                       Inl err \<Rightarrow>
                         \<lparr>outcome = Inl err, logged_written = None, chunks_written = [],
                          sock_after = sk1, fs_after = fs1\<rparr>
                     | Inr fs2 \<Rightarrow>
                         (case recv_file_loop sk1 fsize 0 [] of
                            (written, writes, sk2) \<Rightarrow>
                              \<lparr>outcome = Inr NoneValue, logged_written = Some written,
                               chunks_written = writes, sock_after = sk2,
                               fs_after = write_file fs2 dest (concat writes)\<rparr>)))))"


definition demo_long_sock :: socket where
  "demo_long_sock =
     \<lparr>inbound = [[0, 0, 0, 0], [0, 0, 0, 2, 0x61], [0x62, 0x63], [0x64]], outbound = []\<rparr>"

text \<open>
  The identity key of an item: the folder ID for a folder-level item, and the folder
  ID, a slash and the relative path for a file-level item.
\<close>

definition identity_key :: "PlanItem \<Rightarrow> string" where
  "identity_key i =
     (if level i = folder_level then rel_folder (entry i)
      else rel_folder (entry i) @ ''/'' @ name (entry i))"

text \<open>
  A manifest whose only folder ID has a slash in it, \<^verbatim>\<open>99/x\<close>, and a local file system
  with the numeric folder 99, which the manifest does not know.
\<close>

definition clash_client :: SyncClient where
  "clash_client =
     \<lparr>assets_path = [''assets''], mods_path = [''mods''], sock = None,
      index = [(''99/x/f'', \<lparr>rel_folder = ''99/x'', name = ''f'', size_bytes = 3, mtime = 0,
                 sha256 = ''h1'', kind = ''other''\<rparr>)],
      folder_class = [(''99/x'', assets)],
      folder_override = []\<rparr>"

definition clash_fs :: filesystem where
  "clash_fs =
     \<lparr>nodes =
        [([''assets''], Directory),
         ([''assets'', ''99''], Directory),
         ([''assets'', ''99'', ''x''], Directory),
         ([''assets'', ''99'', ''x'', ''f''], RegFile [1, 2, 3])],
      undeletable = []\<rparr>"

definition clash_plan :: "PlanItem list" where
  "clash_plan =
     [\<lparr>key = ''99/x'', entry = folder_entry ''99/x'', target = [''<Assets>'', ''99'', ''x''],
        action = SAME, level = folder_level\<rparr>,
      \<lparr>key = ''99/x/f'',
        entry = \<lparr>rel_folder = ''99/x'', name = ''f'', size_bytes = 3, mtime = 0,
                 sha256 = ''h1'', kind = ''other''\<rparr>,
        target = [''assets'', ''99'', ''x'', ''f''], action = SAME, level = file_level\<rparr>,
      \<lparr>key = ''(delete)/99'', entry = folder_entry ''99'', target = [''assets'', ''99''],
        action = DELETE, level = folder_level\<rparr>,
      \<lparr>key = ''(delete)/99/x/f'',
        entry = \<lparr>rel_folder = ''99'', name = ''x/f'', size_bytes = 3, mtime = 0,
                 sha256 = '''', kind = ''other''\<rparr>,
        target = [''assets'', ''99'', ''x'', ''f''], action = DELETE, level = file_level\<rparr>]"

section \<open>Grouping and classification\<close>

lemma map_of_group_fold:
  "map_of (foldl (\<lambda>groups (k, fe). setdefault_append groups fe) acc idx) g =
     (case map_of acc g of
        Some l \<Rightarrow> Some (l @ folder_files idx g)
      | None \<Rightarrow> if folder_files idx g = [] then None else Some (folder_files idx g))"
proof (induction idx arbitrary: acc)
  case Nil
  then show ?case by (simp add: folder_files_def split: option.splits)
next
  case (Cons a idx)
  obtain k fe where a: "a = (k, fe)" by (cases a)
  let ?F = "\<lambda>groups (k, fe). setdefault_append groups fe"
  have "map_of (foldl ?F acc (a # idx)) g = map_of (foldl ?F (setdefault_append acc fe) idx) g"
    by (simp add: a)
  also have "\<dots> = (case map_of (setdefault_append acc fe) g of
        Some l \<Rightarrow> Some (l @ folder_files idx g)
      | None \<Rightarrow> if folder_files idx g = [] then None else Some (folder_files idx g))"
    by (rule Cons.IH)
  also have "\<dots> = (case map_of acc g of
        Some l \<Rightarrow> Some (l @ folder_files (a # idx) g)
      | None \<Rightarrow> if folder_files (a # idx) g = [] then None
                else Some (folder_files (a # idx) g))"
    by (simp add: a setdefault_append_def map_of_map_default folder_files_def
        split: option.splits)
  finally show ?case .
qed

lemma map_of_group_index:
  "map_of (group_index idx) g =
     (if folder_files idx g = [] then None else Some (folder_files idx g))"
  by (simp add: group_index_def map_of_group_fold)

lemma distinct_group_fold:
  "distinct (map fst acc) \<Longrightarrow>
   distinct (map fst (foldl (\<lambda>groups (k, fe). setdefault_append groups fe) acc idx))"
proof (induction idx arbitrary: acc)
  case Nil
  then show ?case by simp
next
  case (Cons a idx)
  obtain k fe where a: "a = (k, fe)" by (cases a)
  from Cons.prems have "distinct (map fst (setdefault_append acc fe))"
    by (simp add: setdefault_append_def distinct_map_default)
  then show ?case by (simp add: a Cons.IH)
qed

lemma distinct_group_index: "distinct (map fst (group_index idx))"
  by (simp add: group_index_def distinct_group_fold)

lemma group_index_member:
  "(g, files) \<in> set (group_index idx) \<longleftrightarrow> files = folder_files idx g \<and> files \<noteq> []"
proof -
  have "(g, files) \<in> set (group_index idx) \<longleftrightarrow> map_of (group_index idx) g = Some files"
    using distinct_group_index by (metis map_of_eq_Some_iff)
  then show ?thesis by (auto simp: map_of_group_index)
qed

lemma map_of_class_fold:
  "distinct (map fst groups) \<Longrightarrow>
   map_of (foldl (\<lambda>fc (gid, files). AList.update gid (f files) fc) acc groups) g =
     (case map_of groups g of Some files \<Rightarrow> Some (f files) | None \<Rightarrow> map_of acc g)"
proof (induction groups arbitrary: acc)
  case Nil
  then show ?case by simp
next
  case (Cons a groups)
  obtain k v where a: "a = (k, v)" by (cases a)
  from Cons.prems have d: "distinct (map fst groups)" and k: "k \<notin> fst ` set groups"
    by (auto simp: a)
  from k have n: "map_of groups k = None" by (simp add: map_of_eq_None_iff)
  show ?case
    using n by (auto simp: a Cons.IH [OF d] AList.update_conv' split: option.splits)
qed

lemma distinct_class_fold:
  "distinct (map fst acc) \<Longrightarrow>
   distinct (map fst (foldl (\<lambda>fc (gid, files). AList.update gid (f files) fc) acc groups))"
proof (induction groups arbitrary: acc)
  case Nil
  then show ?case by simp
next
  case (Cons a groups)
  obtain k v where a: "a = (k, v)" by (cases a)
  show ?case using Cons.prems by (simp add: a Cons.IH AList.distinct_update)
qed

text \<open>
  Claim C5. Every folder ID of the manifest gets exactly one class, and the class
  depends only on the kinds of the folder's files: \<open>mixed\<close> when a \<^verbatim>\<open>crp\<close> and a
  \<^verbatim>\<open>dll\<close> file are both present, \<open>assets\<close> with a \<^verbatim>\<open>crp\<close> and no \<^verbatim>\<open>dll\<close>, \<open>mods\<close>
  with a \<^verbatim>\<open>dll\<close> and no \<^verbatim>\<open>crp\<close>, and \<open>assets\<close> when neither kind is present. A
  folder ID with no file in the manifest gets no class.
\<close>

theorem classify_folders_by_kind:
  "distinct (map fst (classify_folders idx)) \<and>
   map_of (classify_folders idx) gid =
     (if folder_files idx gid = [] then None
      else Some
        (if (\<exists>e \<in> set (folder_files idx gid). kind e = ''crp'') \<and>
            (\<exists>e \<in> set (folder_files idx gid). kind e = ''dll'') then mixed
         else if (\<exists>e \<in> set (folder_files idx gid). kind e = ''crp'') then assets
         else if (\<exists>e \<in> set (folder_files idx gid). kind e = ''dll'') then mods
         else assets))"
proof -
  have "distinct (map fst (classify_folders idx))"
    by (simp add: classify_folders_def distinct_class_fold)
  moreover have "map_of (classify_folders idx) gid =
      (case map_of (group_index idx) gid of
         Some files \<Rightarrow> Some (classify_files files) | None \<Rightarrow> None)"
    by (simp add: classify_folders_def map_of_class_fold distinct_group_index
        split: option.splits)
  ultimately show ?thesis
    by (simp add: map_of_group_index classify_files_def list_ex_iff)
qed

theorem classify_folders_by_kind_witness:
  "map_of (classify_folders demo_index) ''7'' = Some mixed \<and>
   map_of (classify_folders demo_index) ''8'' = Some mods \<and>
   map_of (classify_folders demo_index) ''9'' = Some assets \<and>
   map_of (classify_folders demo_index) ''10'' = None"
  using classify_folders_by_kind [of demo_index "''7''"]
    classify_folders_by_kind [of demo_index "''8''"]
    classify_folders_by_kind [of demo_index "''9''"]
    classify_folders_by_kind [of demo_index "''10''"]
  by (simp add: folder_files_def demo_index_def)

section \<open>The plan of the manifest folders\<close>

lemma traverse_Inr_iff:
  "traverse f xs = Inr ys \<longleftrightarrow> list_all2 (\<lambda>x y. f x = Inr y) xs ys"
proof (induction xs arbitrary: ys)
  case Nil
  then show ?case by auto
next
  case (Cons x xs)
  show ?case
    by (cases "f x"; cases "traverse f xs")
      (auto simp: list_all2_Cons1 Cons.IH [symmetric])
qed

lemma traverse_member:
  assumes "traverse f xs = Inr ys"
  shows "y \<in> set ys \<longleftrightarrow> (\<exists>x \<in> set xs. f x = Inr y)"
proof -
  from assms have l: "list_all2 (\<lambda>x y. f x = Inr y) xs ys"
    by (simp add: traverse_Inr_iff)
  then show ?thesis
    by (induction rule: list_all2_induct) auto
qed

lemma traverse_defined:
  assumes "traverse f xs = Inr ys" and "x \<in> set xs"
  shows "\<exists>y \<in> set ys. f x = Inr y"
proof -
  from assms(1) have l: "list_all2 (\<lambda>x y. f x = Inr y) xs ys"
    by (simp add: traverse_Inr_iff)
  then show ?thesis using assms(2)
    by (induction rule: list_all2_induct) auto
qed

lemma traverse_map_action:
  assumes "traverse g xs = Inr ys"
    and "\<And>x y. x \<in> set xs \<Longrightarrow> g x = Inr y \<Longrightarrow> f x = Inr (h y)"
  shows "traverse f xs = Inr (map h ys)"
proof -
  from assms(1) have "list_all2 (\<lambda>x y. g x = Inr y) xs ys"
    by (simp add: traverse_Inr_iff)
  then have "list_all2 (\<lambda>x y. f x = Inr y) xs (map h ys)"
    using assms(2) by (induction rule: list_all2_induct) auto
  then show ?thesis by (simp add: traverse_Inr_iff)
qed

lemma classify_file_action_cases:
  assumes "classify_file_action H c fs e dest_base = Inr a"
  defines "t \<equiv> build_client_target e (assets_path c) (mods_path c) dest_base"
  shows "a \<noteq> DELETE"
    and "\<not> is_dir fs t"
    and "a = SAME \<longleftrightarrow> (\<exists>content. lookup fs t = Some (RegFile content) \<and> H content = sha256 e)"
    and "a = UPDATE \<longleftrightarrow> (\<exists>content. lookup fs t = Some (RegFile content) \<and> H content \<noteq> sha256 e)"
    and "a = NEW \<longleftrightarrow> \<not> is_file fs t"
  using assms
  by (auto simp: classify_file_action_def Let_def path_exists_def sha256_of_file_def
      is_dir_def is_file_def
      split: if_splits option.splits node.splits sum.splits)

lemma file_item_Inr:
  "file_item H c fs gid dest_base e = Inr i \<longleftrightarrow>
     (\<exists>a. classify_file_action H c fs e dest_base = Inr a \<and>
        i = \<lparr>key = gid @ ''/'' @ name e, entry = e,
             target = build_client_target e (assets_path c) (mods_path c) dest_base,
             action = a, level = file_level\<rparr>)"
  by (auto simp: file_item_def split: sum.splits)

lemma plan_group_Inr:
  assumes "plan_group H c fs (gid, files) = Inr items"
  obtains statuses fitems where
    "traverse (\<lambda>e. classify_file_action H c fs e (get_folder_target c gid)) files = Inr statuses"
    "traverse (file_item H c fs gid (get_folder_target c gid)) files = Inr fitems"
    "items = \<lparr>key = gid, entry = folder_entry gid,
               target = Path (''<'' @ capitalize (get_folder_target c gid) @ ''>/'' @ gid),
               action = folder_action statuses, level = folder_level\<rparr> # fitems"
  using assms by (auto simp: plan_group_def Let_def split: sum.splits)

lemma statuses_are_item_actions:
  assumes "traverse (\<lambda>e. classify_file_action H c fs e d) files = Inr statuses"
    and "traverse (file_item H c fs gid d) files = Inr fitems"
  shows "statuses = map action fitems"
proof -
  have "traverse (\<lambda>e. classify_file_action H c fs e d) files = Inr (map action fitems)"
    using assms(2) by (rule traverse_map_action) (auto simp: file_item_Inr)
  with assms(1) show ?thesis by simp
qed

lemma build_plan_Inr:
  assumes "build_plan H st_mtime c fs = Inr plan"
  obtains parts ids where
    "traverse (plan_group H c fs) (group_index (index c)) = Inr parts"
    "local_ids c fs = Inr ids"
    "plan = concat parts @
       concat (map (delete_items st_mtime c fs)
         (filter (\<lambda>gid. gid \<notin> set (map fst (group_index (index c)))) ids))"
  using assms by (auto simp: build_plan_def Let_def split: sum.splits)

lemma delete_items_shape:
  assumes "i \<in> set (delete_items st_mtime c fs gid)"
  shows "action i = DELETE" and "rel_folder (entry i) = gid"
  using assms
  by (auto simp: delete_items_def delete_file_item_def folder_entry_def Let_def
      split: if_splits)

text \<open>Where an item of the plan comes from: a manifest folder or a deletion candidate.\<close>

lemma plan_item_origin:
  assumes "build_plan H st_mtime c fs = Inr plan" and "i \<in> set plan"
  shows "(\<exists>gid items. folder_files (index c) gid \<noteq> [] \<and>
            plan_group H c fs (gid, folder_files (index c) gid) = Inr items \<and> i \<in> set items) \<or>
         (action i = DELETE \<and> folder_files (index c) (rel_folder (entry i)) = [])"
proof -
  from assms(1) obtain parts ids where
    tr: "traverse (plan_group H c fs) (group_index (index c)) = Inr parts" and
    pl: "plan = concat parts @
       concat (map (delete_items st_mtime c fs)
         (filter (\<lambda>gid. gid \<notin> set (map fst (group_index (index c)))) ids))"
    by (rule build_plan_Inr)
  from assms(2) pl consider
    (manifest) items where "items \<in> set parts" "i \<in> set items"
    | (deletion) gid where "gid \<notin> set (map fst (group_index (index c)))"
        "i \<in> set (delete_items st_mtime c fs gid)"
    by auto
  then show ?thesis
  proof cases
    case manifest
    from tr manifest(1) obtain g where
      g: "g \<in> set (group_index (index c))" "plan_group H c fs g = Inr items"
      by (auto simp: traverse_member)
    obtain gid files where gf: "g = (gid, files)" by (cases g)
    with g(1) have "files = folder_files (index c) gid" "files \<noteq> []"
      by (auto simp: group_index_member)
    with g(2) gf manifest(2) show ?thesis by blast
  next
    case deletion
    from deletion(1) have "map_of (group_index (index c)) gid = None"
      by (simp add: map_of_eq_None_iff)
    then have "folder_files (index c) gid = []"
      by (simp add: map_of_group_index split: if_splits)
    with delete_items_shape [OF deletion(2)] show ?thesis by simp
  qed
qed

text \<open>Every folder ID of the manifest has its group in the plan.\<close>

lemma manifest_group_in_plan:
  assumes "build_plan H st_mtime c fs = Inr plan" and "folder_files (index c) gid \<noteq> []"
  shows "\<exists>items. plan_group H c fs (gid, folder_files (index c) gid) = Inr items \<and>
           set items \<subseteq> set plan"
proof -
  from assms(1) obtain parts ids where
    tr: "traverse (plan_group H c fs) (group_index (index c)) = Inr parts" and
    pl: "plan = concat parts @
       concat (map (delete_items st_mtime c fs)
         (filter (\<lambda>gid. gid \<notin> set (map fst (group_index (index c)))) ids))"
    by (rule build_plan_Inr)
  from assms(2) have "(gid, folder_files (index c) gid) \<in> set (group_index (index c))"
    by (simp add: group_index_member)
  from traverse_defined [OF tr this] obtain items where
    "items \<in> set parts" "plan_group H c fs (gid, folder_files (index c) gid) = Inr items"
    by blast
  with pl show ?thesis by auto
qed

lemma plan_group_items:
  assumes "plan_group H c fs (gid, folder_files idx gid) = Inr items" and "i \<in> set items"
  shows "rel_folder (entry i) = gid" and "action i \<noteq> DELETE"
proof -
  let ?d = "get_folder_target c gid"
  from assms(1) obtain statuses fitems where
    st: "traverse (\<lambda>e. classify_file_action H c fs e ?d) (folder_files idx gid) = Inr statuses"
    and fi: "traverse (file_item H c fs gid ?d) (folder_files idx gid) = Inr fitems"
    and it: "items = \<lparr>key = gid, entry = folder_entry gid,
               target = Path (''<'' @ capitalize ?d @ ''>/'' @ gid),
               action = folder_action statuses, level = folder_level\<rparr> # fitems"
    by (rule plan_group_Inr)
  have fitem: "rel_folder (entry j) = gid \<and> action j \<noteq> DELETE" if "j \<in> set fitems" for j
  proof -
    from fi that obtain e where e: "e \<in> set (folder_files idx gid)"
      "file_item H c fs gid ?d e = Inr j"
      by (auto simp: traverse_member)
    from e(2) obtain a where a: "classify_file_action H c fs e ?d = Inr a"
      "entry j = e" "action j = a"
      by (auto simp: file_item_Inr)
    from e(1) have "rel_folder e = gid" by (simp add: folder_files_def)
    with a classify_file_action_cases(1) [OF a(1)] show ?thesis by simp
  qed
  have folder: "folder_action statuses \<noteq> DELETE"
    by (simp add: folder_action_def)
  from assms(2) it fitem folder show "rel_folder (entry i) = gid" and "action i \<noteq> DELETE"
    by (auto simp: folder_entry_def)
qed

lemma demo_build_plan: "build_plan demo_H (\<lambda>p. 0) demo_client demo_fs = Inr demo_plan"
  by code_simp



section \<open>Folder actions and deletion candidates\<close>

lemma folder_action_worst:
  assumes "statuses \<noteq> []" and "DELETE \<notin> set statuses"
  shows "folder_action statuses =
     (if UPDATE \<in> set statuses then UPDATE
      else if NEW \<in> set statuses then NEW
      else SAME)"
proof (cases "UPDATE \<in> set statuses")
  case True
  then have "set statuses \<noteq> {SAME}" by auto
  with True show ?thesis by (simp add: folder_action_def)
next
  case False
  show ?thesis
  proof (cases "NEW \<in> set statuses")
    case True
    then have "set statuses \<noteq> {SAME}" by auto
    with True False show ?thesis by (simp add: folder_action_def)
  next
    case nonew: False
    have "a = SAME" if "a \<in> set statuses" for a
      by (cases a) (use that assms(2) False nonew in auto)
    moreover from assms(1) obtain a where "a \<in> set statuses" by (cases statuses) auto
    ultimately have "set statuses = {SAME}" by auto
    with False nonew show ?thesis by (simp add: folder_action_def)
  qed
qed

text \<open>The file-level items of a manifest folder in the plan are those of its group.\<close>

lemma child_actions_of_group:
  assumes bp: "build_plan H st_mtime c fs = Inr plan"
    and ne: "folder_files (index c) gid \<noteq> []"
    and st: "traverse (\<lambda>e. classify_file_action H c fs e (get_folder_target c gid))
               (folder_files (index c) gid) = Inr statuses"
  shows "set (child_actions plan gid) = set statuses"
proof -
  let ?d = "get_folder_target c gid"
  let ?files = "folder_files (index c) gid"
  from manifest_group_in_plan [OF bp ne] obtain items where
    pg: "plan_group H c fs (gid, ?files) = Inr items" and sub: "set items \<subseteq> set plan"
    by blast
  from pg obtain statuses' fitems where
    st': "traverse (\<lambda>e. classify_file_action H c fs e ?d) ?files = Inr statuses'"
    and fi: "traverse (file_item H c fs gid ?d) ?files = Inr fitems"
    and it': "items = \<lparr>key = gid, entry = folder_entry gid,
               target = Path (''<'' @ capitalize ?d @ ''>/'' @ gid),
               action = folder_action statuses', level = folder_level\<rparr> # fitems"
    by (rule plan_group_Inr)
  from st st' have "statuses' = statuses" by simp
  with it' have it: "items = \<lparr>key = gid, entry = folder_entry gid,
               target = Path (''<'' @ capitalize ?d @ ''>/'' @ gid),
               action = folder_action statuses, level = folder_level\<rparr> # fitems"
    by simp
  have sa: "statuses = map action fitems"
    using st fi by (rule statuses_are_item_actions)
  have shape: "level j = file_level \<and> rel_folder (entry j) = gid" if "j \<in> set fitems" for j
  proof -
    from fi that obtain e where "e \<in> set ?files" "file_item H c fs gid ?d e = Inr j"
      by (auto simp: traverse_member)
    then show ?thesis by (auto simp: file_item_Inr folder_files_def)
  qed
  have "{j \<in> set plan. level j = file_level \<and> rel_folder (entry j) = gid} = set fitems"
  proof (intro equalityI subsetI)
    fix j assume "j \<in> {j \<in> set plan. level j = file_level \<and> rel_folder (entry j) = gid}"
    then have j: "j \<in> set plan" "level j = file_level" "rel_folder (entry j) = gid" by auto
    from plan_item_origin [OF bp j(1)] ne j(3) obtain gid' items' where
      o: "plan_group H c fs (gid', folder_files (index c) gid') = Inr items'" "j \<in> set items'"
      by auto
    from plan_group_items(1) [OF o] j(3) have "gid' = gid" by simp
    with o pg have "j \<in> set items" by simp
    with it j(2) show "j \<in> set fitems" by auto
  next
    fix j assume "j \<in> set fitems"
    with shape [of j] it sub
    show "j \<in> {j \<in> set plan. level j = file_level \<and> rel_folder (entry j) = gid}"
      by auto
  qed
  then have "set (child_actions plan gid) = action ` set fitems"
    by (simp add: child_actions_def)
  with sa show ?thesis by simp
qed

text \<open>
  Claim C4. In a plan that \<^verbatim>\<open>build_plan\<close> returns, every folder ID of the manifest has
  a folder-level item, and every folder-level item that is not a deletion belongs to
  a folder ID with at least one descriptor in the manifest, has at least one
  file-level child in the plan, and carries \<open>UPDATE\<close> if a child does, otherwise
  \<open>NEW\<close> if a child does, otherwise \<open>SAME\<close>. (The folder-level \<open>DELETE\<close> items
  of local folders that the manifest does not know are the subject of claim C6.)
\<close>

theorem build_plan_folder_actions:
  assumes "build_plan H st_mtime c fs = Inr plan"
  shows "(\<forall>gid. folder_files (index c) gid \<noteq> [] \<longrightarrow>
            (\<exists>i \<in> set plan. level i = folder_level \<and> action i \<noteq> DELETE \<and>
               key i = gid \<and> rel_folder (entry i) = gid)) \<and>
         (\<forall>i \<in> set plan. level i = folder_level \<and> action i \<noteq> DELETE \<longrightarrow>
            folder_files (index c) (rel_folder (entry i)) \<noteq> [] \<and>
            child_actions plan (rel_folder (entry i)) \<noteq> [] \<and>
            action i =
              (if UPDATE \<in> set (child_actions plan (rel_folder (entry i))) then UPDATE
               else if NEW \<in> set (child_actions plan (rel_folder (entry i))) then NEW
               else SAME))"
proof -
  have group: "set (child_actions plan gid) = set statuses \<and> statuses \<noteq> [] \<and>
      folder_action statuses \<noteq> DELETE \<and>
      folder_action statuses =
        (if UPDATE \<in> set (child_actions plan gid) then UPDATE
         else if NEW \<in> set (child_actions plan gid) then NEW
         else SAME)"
    if ne: "folder_files (index c) gid \<noteq> []"
      and st: "traverse (\<lambda>e. classify_file_action H c fs e (get_folder_target c gid))
               (folder_files (index c) gid) = Inr statuses"
    for gid statuses
  proof -
    have ca: "set (child_actions plan gid) = set statuses"
      using assms ne st by (rule child_actions_of_group)
    from st have l: "list_all2 (\<lambda>e a. classify_file_action H c fs e (get_folder_target c gid) = Inr a)
        (folder_files (index c) gid) statuses"
      by (simp add: traverse_Inr_iff)
    with ne have n: "statuses \<noteq> []" by auto
    have "a \<noteq> DELETE" if "a \<in> set statuses" for a
    proof -
      from st that obtain e where
        "classify_file_action H c fs e (get_folder_target c gid) = Inr a"
        by (auto simp: traverse_member)
      then show ?thesis by (rule classify_file_action_cases(1))
    qed
    then have nd: "DELETE \<notin> set statuses" by blast
    show ?thesis
      using ca n folder_action_worst [OF n nd] by (simp add: folder_action_def)
  qed
  show ?thesis
  proof (intro conjI allI ballI impI)
    fix gid assume ne: "folder_files (index c) gid \<noteq> []"
    from manifest_group_in_plan [OF assms ne] obtain items where
      pg: "plan_group H c fs (gid, folder_files (index c) gid) = Inr items"
      and sub: "set items \<subseteq> set plan"
      by blast
    from pg obtain statuses fitems where
      st: "traverse (\<lambda>e. classify_file_action H c fs e (get_folder_target c gid))
             (folder_files (index c) gid) = Inr statuses"
      and it: "items = \<lparr>key = gid, entry = folder_entry gid,
               target = Path (''<'' @ capitalize (get_folder_target c gid) @ ''>/'' @ gid),
               action = folder_action statuses, level = folder_level\<rparr> # fitems"
      by (rule plan_group_Inr)
    from it sub have "hd items \<in> set plan" by auto
    moreover from it group [OF ne st]
    have "level (hd items) = folder_level \<and> action (hd items) \<noteq> DELETE \<and>
        key (hd items) = gid \<and> rel_folder (entry (hd items)) = gid"
      by (simp add: folder_entry_def)
    ultimately show "\<exists>i \<in> set plan. level i = folder_level \<and> action i \<noteq> DELETE \<and>
        key i = gid \<and> rel_folder (entry i) = gid"
      by blast
  next
    fix i assume i: "i \<in> set plan" and lv: "level i = folder_level \<and> action i \<noteq> DELETE"
    from plan_item_origin [OF assms i] lv obtain gid items where
      ne: "folder_files (index c) gid \<noteq> []"
      and pg: "plan_group H c fs (gid, folder_files (index c) gid) = Inr items"
      and mem: "i \<in> set items"
      by auto
    from pg obtain statuses fitems where
      st: "traverse (\<lambda>e. classify_file_action H c fs e (get_folder_target c gid))
             (folder_files (index c) gid) = Inr statuses"
      and fi: "traverse (file_item H c fs gid (get_folder_target c gid))
             (folder_files (index c) gid) = Inr fitems"
      and it: "items = \<lparr>key = gid, entry = folder_entry gid,
               target = Path (''<'' @ capitalize (get_folder_target c gid) @ ''>/'' @ gid),
               action = folder_action statuses, level = folder_level\<rparr> # fitems"
      by (rule plan_group_Inr)
    have "level j = file_level" if "j \<in> set fitems" for j
      using fi that by (auto simp: traverse_member file_item_Inr)
    with mem it lv have hd: "i = hd items" by auto
    have r: "rel_folder (entry i) = gid" and a: "action i = folder_action statuses"
      by (simp_all add: hd it folder_entry_def)
    note g = group [OF ne st]
    show "folder_files (index c) (rel_folder (entry i)) \<noteq> []" using ne r by simp
    show "child_actions plan (rel_folder (entry i)) \<noteq> []"
      using g r by (metis set_empty)
    show "action i =
        (if UPDATE \<in> set (child_actions plan (rel_folder (entry i))) then UPDATE
         else if NEW \<in> set (child_actions plan (rel_folder (entry i))) then NEW
         else SAME)"
      using g r a by simp
  qed
qed

theorem build_plan_folder_actions_witness:
  "build_plan demo_H (\<lambda>p. 0) demo_client demo_fs = Inr demo_plan \<and>
   level (demo_plan ! 0) = folder_level \<and> rel_folder (entry (demo_plan ! 0)) = ''7'' \<and>
   child_actions demo_plan ''7'' = [SAME, UPDATE] \<and> action (demo_plan ! 0) = UPDATE \<and>
   level (demo_plan ! 3) = folder_level \<and> rel_folder (entry (demo_plan ! 3)) = ''8'' \<and>
   child_actions demo_plan ''8'' = [NEW] \<and> action (demo_plan ! 3) = NEW"
proof -
  have bp: "build_plan demo_H (\<lambda>p. 0) demo_client demo_fs = Inr demo_plan"
    by (rule demo_build_plan)
  have facts: "\<forall>i \<in> set demo_plan. level i = folder_level \<and> action i \<noteq> DELETE \<longrightarrow>
      action i =
        (if UPDATE \<in> set (child_actions demo_plan (rel_folder (entry i))) then UPDATE
         else if NEW \<in> set (child_actions demo_plan (rel_folder (entry i))) then NEW
         else SAME)"
    using build_plan_folder_actions [OF bp] by blast
  have m: "demo_plan ! 0 \<in> set demo_plan" "demo_plan ! 3 \<in> set demo_plan"
    by (simp_all add: demo_plan_def)
  have s: "level (demo_plan ! 0) = folder_level" "rel_folder (entry (demo_plan ! 0)) = ''7''"
    "level (demo_plan ! 3) = folder_level" "rel_folder (entry (demo_plan ! 3)) = ''8''"
    "action (demo_plan ! 0) \<noteq> DELETE" "action (demo_plan ! 3) \<noteq> DELETE"
    by (simp_all add: demo_plan_def folder_entry_def)
  have ch: "child_actions demo_plan ''7'' = [SAME, UPDATE]" "child_actions demo_plan ''8'' = [NEW]"
    by (simp_all add: child_actions_def demo_plan_def folder_entry_def demo_index_def)
  from facts m(1) s(1,2,5) ch(1) have a0: "action (demo_plan ! 0) = UPDATE" by auto
  from facts m(2) s(3,4,6) ch(2) have a3: "action (demo_plan ! 3) = NEW" by auto
  from bp s ch a0 a3 show ?thesis by simp
qed

lemma split_slash_no_slash: "CHR ''/'' \<notin> set s \<Longrightarrow> split_slash s = [s]"
  by (induction s) auto

lemma digit_not_separator:
  "digit_char c \<Longrightarrow> c \<noteq> CHR ''/'' \<and> c \<noteq> CHR ''.'' \<and> c \<noteq> CHR ''(''"
  by (auto simp: digit_char_def)

lemma Path_isdigit:
  assumes "isdigit gid"
  shows "Path gid = [gid]"
proof -
  from assms have ne: "gid \<noteq> []" and dg: "\<forall>c \<in> set gid. digit_char c"
    by (simp_all add: isdigit_def list_all_iff)
  from dg have sep: "\<forall>c \<in> set gid. c \<noteq> CHR ''/'' \<and> c \<noteq> CHR ''.''"
    using digit_not_separator by blast
  then have "CHR ''/'' \<notin> set gid" by blast
  then have sp: "split_slash gid = [gid]" by (rule split_slash_no_slash)
  have "gid \<noteq> ''.''"
  proof
    assume "gid = ''.''"
    then have "CHR ''.'' \<in> set gid" by simp
    with sep show False by blast
  qed
  with ne sp show ?thesis by (simp add: Path_def)
qed

lemma local_ids_under_member:
  assumes "local_ids_under fs base = Inr l"
    and "path_exists fs base" and "is_dir fs (base @ [gid])" and "isdigit gid"
  shows "gid \<in> set l"
proof -
  from assms(1,2) obtain ds where ds: "iterdir fs base = Inr ds"
    and l: "l = map last (filter (\<lambda>d. is_dir fs d \<and> isdigit (last d)) ds)"
    by (auto simp: local_ids_under_def split: sum.splits)
  from assms(3) have "map_of (nodes fs) (base @ [gid]) = Some Directory"
    by (simp add: is_dir_def lookup_def)
  then have "(base @ [gid], Directory) \<in> set (nodes fs)" by (rule map_of_SomeD)
  then have "fst (base @ [gid], Directory) \<in> fst ` set (nodes fs)" by (rule imageI)
  then have "base @ [gid] \<in> set (map fst (nodes fs))" by simp
  moreover from ds have "ds = filter (\<lambda>p. p \<noteq> [] \<and> butlast p = base) (map fst (nodes fs))"
    by (auto simp: iterdir_def split: if_splits)
  ultimately have "base @ [gid] \<in> set ds" by simp
  with assms(3,4) have "base @ [gid] \<in> set (filter (\<lambda>d. is_dir fs d \<and> isdigit (last d)) ds)"
    by simp
  then have "last (base @ [gid]) \<in> set l" unfolding l by (simp only: set_map image_eqI)
  then show ?thesis by simp
qed

lemma local_ids_member:
  assumes "local_ids c fs = Inr ids"
    and "base = assets_path c \<or> base = mods_path c"
    and "path_exists fs base" and "is_dir fs (base @ [gid])" and "isdigit gid"
  shows "gid \<in> set ids"
proof -
  from assms(1) obtain a m where
    a: "local_ids_under fs (assets_path c) = Inr a"
    and m: "local_ids_under fs (mods_path c) = Inr m"
    and ids: "ids = remdups (a @ m)"
    by (auto simp: local_ids_def split: sum.splits)
  from assms(2) show ?thesis
  proof
    assume "base = assets_path c"
    with local_ids_under_member [OF a] assms(3-5) ids show ?thesis by simp
  next
    assume "base = mods_path c"
    with local_ids_under_member [OF m] assms(3-5) ids show ?thesis by simp
  qed
qed

lemma local_ids_under_digits:
  assumes "local_ids_under fs base = Inr l" and "gid \<in> set l"
  shows "isdigit gid"
  using assms by (auto simp: local_ids_under_def split: if_splits sum.splits)

lemma local_ids_digits:
  assumes "local_ids c fs = Inr ids" and "gid \<in> set ids"
  shows "isdigit gid"
proof -
  from assms(1) obtain a m where
    a: "local_ids_under fs (assets_path c) = Inr a"
    and m: "local_ids_under fs (mods_path c) = Inr m"
    and ids: "ids = remdups (a @ m)"
    by (auto simp: local_ids_def split: sum.splits)
  from assms(2) ids have "gid \<in> set a \<or> gid \<in> set m" by simp
  then show ?thesis
    using local_ids_under_digits [OF a] local_ids_under_digits [OF m] by blast
qed

lemma isdigit_no_slash: "isdigit gid \<Longrightarrow> CHR ''/'' \<notin> set gid"
  using digit_not_separator by (auto simp: isdigit_def list_all_iff)

text \<open>An item of the plan is an item of a manifest folder or of a deletion candidate.\<close>

lemma plan_item_cases:
  assumes "build_plan H st_mtime c fs = Inr plan" and "i \<in> set plan"
  obtains (manifest) gid items where
      "folder_files (index c) gid \<noteq> []"
      "plan_group H c fs (gid, folder_files (index c) gid) = Inr items"
      "i \<in> set items"
  | (deletion) gid where
      "isdigit gid" "folder_files (index c) gid = []"
      "i \<in> set (delete_items st_mtime c fs gid)"
proof -
  from assms(1) obtain parts ids where
    tr: "traverse (plan_group H c fs) (group_index (index c)) = Inr parts" and
    li: "local_ids c fs = Inr ids" and
    pl: "plan = concat parts @
       concat (map (delete_items st_mtime c fs)
         (filter (\<lambda>gid. gid \<notin> set (map fst (group_index (index c)))) ids))"
    by (rule build_plan_Inr)
  from assms(2) pl consider
    (a) items where "items \<in> set parts" "i \<in> set items"
    | (b) gid where "gid \<in> set ids" "gid \<notin> set (map fst (group_index (index c)))"
        "i \<in> set (delete_items st_mtime c fs gid)"
    by auto
  then show ?thesis
  proof cases
    case a
    from tr a(1) obtain g where
      g: "g \<in> set (group_index (index c))" "plan_group H c fs g = Inr items"
      by (auto simp: traverse_member)
    obtain gid files where gf: "g = (gid, files)" by (cases g)
    with g(1) have "files = folder_files (index c) gid" "files \<noteq> []"
      by (auto simp: group_index_member)
    with g(2) gf a(2) show ?thesis by (intro manifest [of gid items]) simp_all
  next
    case b
    from b(2) have "map_of (group_index (index c)) gid = None"
      by (simp add: map_of_eq_None_iff)
    then have "folder_files (index c) gid = []"
      by (simp add: map_of_group_index split: if_splits)
    with local_ids_digits [OF li b(1)] b(3) show ?thesis by (intro deletion [of gid])
  qed
qed

lemma delete_items_key:
  assumes "i \<in> set (delete_items st_mtime c fs gid)"
  shows "key i = ''(delete)/'' @ identity_key i"
  using assms
  by (auto simp: delete_items_def delete_file_item_def folder_entry_def identity_key_def
      Let_def split: if_splits)

lemma plan_group_key:
  assumes "plan_group H c fs (gid, folder_files idx gid) = Inr items" and "i \<in> set items"
  shows "key i = identity_key i"
proof -
  let ?d = "get_folder_target c gid"
  from assms(1) obtain statuses fitems where
    fi: "traverse (file_item H c fs gid ?d) (folder_files idx gid) = Inr fitems"
    and it: "items = \<lparr>key = gid, entry = folder_entry gid,
               target = Path (''<'' @ capitalize ?d @ ''>/'' @ gid),
               action = folder_action statuses, level = folder_level\<rparr> # fitems"
    by (rule plan_group_Inr)
  have "key j = identity_key j" if "j \<in> set fitems" for j
  proof -
    from fi that obtain e where e: "e \<in> set (folder_files idx gid)"
      "file_item H c fs gid ?d e = Inr j"
      by (auto simp: traverse_member)
    from e(1) have "rel_folder e = gid" by (simp add: folder_files_def)
    with e(2) show ?thesis by (auto simp: file_item_Inr identity_key_def)
  qed
  with assms(2) it show ?thesis by (auto simp: identity_key_def folder_entry_def)
qed

lemma folder_part_of_key:
  assumes "CHR ''/'' \<notin> set g1" and "CHR ''/'' \<notin> set g2"
    and "g1 @ ''/'' @ n1 = g2 @ ''/'' @ n2"
  shows "g1 = g2"
proof -
  have tw: "takeWhile (\<lambda>c. c \<noteq> CHR ''/'') (g @ ''/'' @ n) = g"
    if "CHR ''/'' \<notin> set g" for g n :: string
    using that by (induction g) auto
  from assms(3) have "takeWhile (\<lambda>c. c \<noteq> CHR ''/'') (g1 @ ''/'' @ n1) =
      takeWhile (\<lambda>c. c \<noteq> CHR ''/'') (g2 @ ''/'' @ n2)"
    by simp
  with tw [OF assms(1), of n1] tw [OF assms(2), of n2] show ?thesis by simp
qed

lemma demo_clash_plan:
  "build_plan demo_H (\<lambda>p. 0) clash_client clash_fs = Inr clash_plan"
  by code_simp

text \<open>
  Claim C6, amended. In a plan that \<^verbatim>\<open>build_plan\<close> returns, a directory with a numeric
  name right under the assets or the mods root whose name is no folder ID of the
  manifest has a folder-level \<open>DELETE\<close> item with the key \<^verbatim>\<open>(delete)/ID\<close>, and every
  item of the plan for that folder ID is a \<open>DELETE\<close> item. No folder ID has both a
  \<open>DELETE\<close> item and an item with another action. The key of an item is its
  identity key, behind \<^verbatim>\<open>(delete)/\<close> for a \<open>DELETE\<close> item. When no folder ID of the
  manifest contains a slash, no \<open>DELETE\<close> item has the identity key of an item with
  another action.
\<close>

theorem build_plan_delete_candidates:
  assumes "build_plan H st_mtime c fs = Inr plan"
  shows "(\<forall>base gid.
            (base = assets_path c \<or> base = mods_path c) \<and> path_exists fs base \<and>
            is_dir fs (base @ [gid]) \<and> isdigit gid \<and> folder_files (index c) gid = [] \<longrightarrow>
            (\<exists>i \<in> set plan. level i = folder_level \<and> action i = DELETE \<and>
               key i = ''(delete)/'' @ gid \<and> rel_folder (entry i) = gid) \<and>
            (\<forall>i \<in> set plan. rel_folder (entry i) = gid \<longrightarrow> action i = DELETE)) \<and>
         (\<forall>i \<in> set plan. \<forall>j \<in> set plan. action i = DELETE \<and> action j \<noteq> DELETE \<longrightarrow>
            rel_folder (entry i) \<noteq> rel_folder (entry j)) \<and>
         (\<forall>i \<in> set plan.
            key i = (if action i = DELETE then ''(delete)/'' @ identity_key i
                     else identity_key i)) \<and>
         ((\<forall>e \<in> snd ` set (index c). CHR ''/'' \<notin> set (rel_folder e)) \<longrightarrow>
          (\<forall>i \<in> set plan. \<forall>j \<in> set plan. action i = DELETE \<and> action j \<noteq> DELETE \<longrightarrow>
             identity_key i \<noteq> identity_key j))"
proof -
  have known: "folder_files (index c) (rel_folder (entry j)) \<noteq> [] \<and> key j = identity_key j"
    if "j \<in> set plan" "action j \<noteq> DELETE" for j
    using assms that(1)
  proof (cases rule: plan_item_cases)
    case (manifest gid items)
    from plan_group_items(1) [OF manifest(2,3)] plan_group_key [OF manifest(2,3)] manifest(1)
    show ?thesis by simp
  next
    case (deletion gid)
    from delete_items_shape(1) [OF deletion(3)] that(2) show ?thesis by simp
  qed
  have unknown: "folder_files (index c) (rel_folder (entry i)) = [] \<and>
      isdigit (rel_folder (entry i)) \<and> key i = ''(delete)/'' @ identity_key i"
    if "i \<in> set plan" "action i = DELETE" for i
    using assms that(1)
  proof (cases rule: plan_item_cases)
    case (manifest gid items)
    from plan_group_items(2) [OF manifest(2,3)] that(2) show ?thesis by simp
  next
    case (deletion gid)
    from delete_items_shape(2) [OF deletion(3)] delete_items_key [OF deletion(3)] deletion(1,2)
    show ?thesis by simp
  qed
  have keys: "identity_key i \<noteq> identity_key j"
    if slash: "\<forall>e \<in> snd ` set (index c). CHR ''/'' \<notin> set (rel_folder e)"
      and i: "i \<in> set plan" "action i = DELETE"
      and j: "j \<in> set plan" "action j \<noteq> DELETE"
    for i j
  proof -
    let ?gi = "rel_folder (entry i)" and ?gj = "rel_folder (entry j)"
    from unknown [OF i] have ui: "folder_files (index c) ?gi = []" "isdigit ?gi" by simp_all
    from known [OF j] have kj: "folder_files (index c) ?gj \<noteq> []" by simp
    from ui(1) kj have ne: "?gi \<noteq> ?gj" by auto
    from ui(2) have si: "CHR ''/'' \<notin> set ?gi" by (rule isdigit_no_slash)
    from kj obtain e where "e \<in> set (folder_files (index c) ?gj)" by (cases "folder_files (index c) ?gj") auto
    then have "e \<in> snd ` set (index c)" "rel_folder e = ?gj" by (auto simp: folder_files_def)
    with slash have sj: "CHR ''/'' \<notin> set ?gj" by auto
    show ?thesis
    proof
      assume eq: "identity_key i = identity_key j"
      show False
      proof (cases "level i"; cases "level j")
        assume "level i = folder_level" "level j = folder_level"
        with eq ne show False by (simp add: identity_key_def)
      next
        assume "level i = folder_level" "level j = file_level"
        with eq have "?gi = ?gj @ ''/'' @ name (entry j)" by (simp add: identity_key_def)
        then have "CHR ''/'' \<in> set ?gi" by simp
        with si show False by simp
      next
        assume "level i = file_level" "level j = folder_level"
        with eq have "?gj = ?gi @ ''/'' @ name (entry i)" by (simp add: identity_key_def)
        then have "CHR ''/'' \<in> set ?gj" by simp
        with sj show False by simp
      next
        assume "level i = file_level" "level j = file_level"
        with eq have "?gi @ ''/'' @ name (entry i) = ?gj @ ''/'' @ name (entry j)"
          by (simp add: identity_key_def)
        with si sj have "?gi = ?gj" by (rule folder_part_of_key)
        with ne show False by simp
      qed
    qed
  qed
  show ?thesis
  proof (intro conjI allI ballI impI)
    fix base gid
    assume h: "(base = assets_path c \<or> base = mods_path c) \<and> path_exists fs base \<and>
        is_dir fs (base @ [gid]) \<and> isdigit gid \<and> folder_files (index c) gid = []"
    from assms obtain parts ids where
      li: "local_ids c fs = Inr ids" and
      pl: "plan = concat parts @
         concat (map (delete_items st_mtime c fs)
           (filter (\<lambda>gid. gid \<notin> set (map fst (group_index (index c)))) ids))"
      by (rule build_plan_Inr)
    from h have "gid \<in> set ids"
      by (intro local_ids_member [OF li, of base gid]) simp_all
    moreover from h have "map_of (group_index (index c)) gid = None"
      by (simp add: map_of_group_index)
    then have "gid \<notin> set (map fst (group_index (index c)))"
      by (simp add: map_of_eq_None_iff)
    ultimately have "set (delete_items st_mtime c fs gid) \<subseteq> set plan"
      unfolding pl by auto
    moreover have "hd (delete_items st_mtime c fs gid) \<in> set (delete_items st_mtime c fs gid)"
      by (simp add: delete_items_def)
    ultimately have "hd (delete_items st_mtime c fs gid) \<in> set plan"
      by (rule subsetD)
    moreover have "level (hd (delete_items st_mtime c fs gid)) = folder_level \<and>
        action (hd (delete_items st_mtime c fs gid)) = DELETE \<and>
        key (hd (delete_items st_mtime c fs gid)) = ''(delete)/'' @ gid \<and>
        rel_folder (entry (hd (delete_items st_mtime c fs gid))) = gid"
      by (simp add: delete_items_def folder_entry_def)
    ultimately show "\<exists>i \<in> set plan. level i = folder_level \<and> action i = DELETE \<and>
        key i = ''(delete)/'' @ gid \<and> rel_folder (entry i) = gid"
      by blast
  next
    fix base gid i
    assume h: "(base = assets_path c \<or> base = mods_path c) \<and> path_exists fs base \<and>
        is_dir fs (base @ [gid]) \<and> isdigit gid \<and> folder_files (index c) gid = []"
      and i: "i \<in> set plan" "rel_folder (entry i) = gid"
    from known [OF i(1)] h i(2) show "action i = DELETE" by auto
  next
    fix i j
    assume "i \<in> set plan" "j \<in> set plan" "action i = DELETE \<and> action j \<noteq> DELETE"
    with known [of j] unknown [of i] show "rel_folder (entry i) \<noteq> rel_folder (entry j)"
      by auto
  next
    fix i assume "i \<in> set plan"
    with known [of i] unknown [of i]
    show "key i = (if action i = DELETE then ''(delete)/'' @ identity_key i
                   else identity_key i)"
      by auto
  next
    fix i j
    assume "\<forall>e \<in> snd ` set (index c). CHR ''/'' \<notin> set (rel_folder e)"
      and "i \<in> set plan" "j \<in> set plan" "action i = DELETE \<and> action j \<noteq> DELETE"
    then show "identity_key i \<noteq> identity_key j" by (intro keys) simp_all
  qed
qed

theorem build_plan_delete_candidates_witness:
  "build_plan demo_H (\<lambda>p. 0) demo_client demo_fs = Inr demo_plan \<and>
   path_exists demo_fs (assets_path demo_client) \<and>
   is_dir demo_fs (assets_path demo_client @ [''99'']) \<and> isdigit ''99'' \<and>
   folder_files (index demo_client) ''99'' = [] \<and>
   (\<exists>i \<in> set demo_plan. level i = folder_level \<and> action i = DELETE \<and>
      key i = ''(delete)/99'' \<and> rel_folder (entry i) = ''99'') \<and>
   action (demo_plan ! 8) = DELETE \<and> rel_folder (entry (demo_plan ! 8)) = ''99''"
proof -
  have bp: "build_plan demo_H (\<lambda>p. 0) demo_client demo_fs = Inr demo_plan"
    by (rule demo_build_plan)
  have h: "path_exists demo_fs (assets_path demo_client)"
    "is_dir demo_fs (assets_path demo_client @ [''99''])" "isdigit ''99''"
    "folder_files (index demo_client) ''99'' = []"
    by (simp_all add: path_exists_def is_dir_def lookup_def demo_fs_def demo_client_def
        isdigit_def digit_char_def folder_files_def demo_index_def)
  note t = build_plan_delete_candidates [OF bp, THEN conjunct1, rule_format,
      where base = "assets_path demo_client" and gid = "''99''"]
  from h have c1: "\<exists>i \<in> set demo_plan. level i = folder_level \<and> action i = DELETE \<and>
      key i = ''(delete)/'' @ ''99'' \<and> rel_folder (entry i) = ''99''"
    by (intro t [THEN conjunct1]) simp
  from h have c2: "\<forall>i \<in> set demo_plan. rel_folder (entry i) = ''99'' \<longrightarrow> action i = DELETE"
    by (intro t [THEN conjunct2]) simp
  have m: "demo_plan ! 8 \<in> set demo_plan" "rel_folder (entry (demo_plan ! 8)) = ''99''"
    by (simp_all add: demo_plan_def)
  from c2 m(1) have "rel_folder (entry (demo_plan ! 8)) = ''99'' \<longrightarrow>
      action (demo_plan ! 8) = DELETE"
    by (rule bspec)
  with m(2) have a: "action (demo_plan ! 8) = DELETE" by simp
  from c1 have c1': "\<exists>i \<in> set demo_plan. level i = folder_level \<and> action i = DELETE \<and>
      key i = ''(delete)/99'' \<and> rel_folder (entry i) = ''99''"
    by simp
  from bp h c1' a m(2) show ?thesis by (intro conjI)
qed

theorem build_plan_identity_key_counterexample:
  "build_plan demo_H (\<lambda>p. 0) clash_client clash_fs = Inr clash_plan \<and>
   level (clash_plan ! 1) = file_level \<and> action (clash_plan ! 1) = SAME \<and>
   key (clash_plan ! 1) = ''99/x/f'' \<and>
   level (clash_plan ! 3) = file_level \<and> action (clash_plan ! 3) = DELETE \<and>
   key (clash_plan ! 3) = ''(delete)/99/x/f'' \<and>
   identity_key (clash_plan ! 1) = ''99/x/f'' \<and>
   identity_key (clash_plan ! 3) = ''99/x/f'' \<and>
   target (clash_plan ! 1) = target (clash_plan ! 3)"
proof -
  have "build_plan demo_H (\<lambda>p. 0) clash_client clash_fs = Inr clash_plan"
    by (rule demo_clash_plan)
  then show ?thesis by (simp add: clash_plan_def identity_key_def)
qed

section \<open>Reading from a socket\<close>

lemma recv_payload:
  assumes "0 < n" and "recv sk n = (chunk, sk')"
  shows "chunk = take (length chunk) (payload sk)"
    and "payload sk' = drop (length chunk) (payload sk)"
    and "length chunk \<le> n"
    and "chunk = [] \<longleftrightarrow> payload sk = []"
    and "outbound sk' = outbound sk"
proof -
  show "chunk = take (length chunk) (payload sk)"
    using assms by (cases "inbound sk") (auto simp: recv_def payload_def split: if_splits)
  show "payload sk' = drop (length chunk) (payload sk)"
    using assms by (cases "inbound sk") (auto simp: recv_def payload_def split: if_splits)
  show "length chunk \<le> n"
    using assms by (cases "inbound sk") (auto simp: recv_def split: if_splits)
  show "chunk = [] \<longleftrightarrow> payload sk = []"
    using assms by (cases "inbound sk") (auto simp: recv_def payload_def split: if_splits)
  show "outbound sk' = outbound sk"
    using assms by (cases "inbound sk") (auto simp: recv_def split: if_splits)
qed

lemma take_then_take:
  assumes "a \<le> k"
  shows "take a xs @ take (k - a) (drop a xs) = take k xs"
proof -
  from assms have "k = a + (k - a)" by simp
  then have "take k xs = take (a + (k - a)) xs" by simp
  also have "\<dots> = take a xs @ take (k - a) (drop a xs)" by (rule take_add)
  finally show ?thesis by simp
qed

lemma recvall_loop_payload:
  "recvall_loop sk n buf = (buf', sk') \<Longrightarrow>
   buf' = buf @ take (n - length buf) (payload sk) \<and>
   payload sk' = drop (n - length buf) (payload sk) \<and>
   outbound sk' = outbound sk"
proof (induction sk n buf arbitrary: buf' sk' rule: recvall_loop.induct)
  case (1 sk n buf)
  show ?case
  proof (cases "length buf < n")
    case False
    with "1.prems" show ?thesis by (simp add: recvall_loop.simps [of sk])
  next
    case less: True
    obtain chunk sk1 where r: "recv sk (n - length buf) = (chunk, sk1)"
      by (cases "recv sk (n - length buf)")
    from less have pos: "0 < n - length buf" by simp
    note rp = recv_payload [OF pos r]
    show ?thesis
    proof (cases "chunk = []")
      case True
      with "1.prems" less r have "buf' = buf" "sk' = sk1"
        by (simp_all add: recvall_loop.simps [of sk])
      moreover from True rp(4) have "payload sk = []" by simp
      ultimately show ?thesis using rp(2,5) by simp
    next
      case False
      with "1.prems" less r have "recvall_loop sk1 n (buf @ chunk) = (buf', sk')"
        by (simp add: recvall_loop.simps [of sk])
      from "1.IH" [OF less r [symmetric] False this]
      have ih: "buf' = (buf @ chunk) @ take (n - length (buf @ chunk)) (payload sk1)"
        "payload sk' = drop (n - length (buf @ chunk)) (payload sk1)"
        "outbound sk' = outbound sk1"
        by simp_all
      let ?k = "n - length buf"
      have k: "n - length (buf @ chunk) = ?k - length chunk" by simp
      have "buf' = buf @ (take (length chunk) (payload sk) @
          take (?k - length chunk) (drop (length chunk) (payload sk)))"
        using ih(1) rp(1,2) k by simp
      then have b: "buf' = buf @ take ?k (payload sk)"
        using take_then_take [OF rp(3)] by simp
      have "payload sk' = drop (?k - length chunk) (drop (length chunk) (payload sk))"
        using ih(2) rp(2) k by simp
      moreover have "?k - length chunk + length chunk = ?k"
        using rp(3) by arith
      ultimately have p: "payload sk' = drop ?k (payload sk)"
        by (simp only: drop_drop)
      from b p ih(3) rp(5) show ?thesis by simp
    qed
  qed
qed

lemma recvall_payload:
  assumes "recvall sk n = (buf, sk')"
  shows "buf = take n (payload sk)" and "payload sk' = drop n (payload sk)"
    and "outbound sk' = outbound sk"
  using recvall_loop_payload [of sk n "[]" buf sk'] assms
  by (simp_all add: recvall_def)

lemma length_nat_to_be: "length (nat_to_be k n) = k"
  by (induction k arbitrary: n) simp_all

lemma be_to_nat_snoc: "be_to_nat (bs @ [b]) = be_to_nat bs * 256 + unat b"
  by (simp add: be_to_nat_def)

lemma be_to_nat_nat_to_be: "be_to_nat (nat_to_be k n) = n mod 256 ^ k"
proof (induction k arbitrary: n)
  case 0
  show ?case by (simp add: be_to_nat_def)
next
  case (Suc k)
  have u: "unat (of_nat (n mod 256) :: byte) = n mod 256"
    by (simp add: unat_of_nat)
  have "be_to_nat (nat_to_be (Suc k) n) = (n div 256 mod 256 ^ k) * 256 + n mod 256"
    by (simp add: be_to_nat_snoc Suc.IH u)
  also have "\<dots> = n mod (256 * 256 ^ k)"
    by (simp add: mod_mult2_eq)
  finally show ?case by simp
qed

lemma unpack_pack_be:
  assumes "pack_be k n = Inr header"
  shows "unpack_be k header = Inr n" and "length header = k"
proof -
  from assms have n: "n < 256 ^ k" and h: "header = nat_to_be k n"
    by (auto simp: pack_be_def split: if_splits)
  show "length header = k" by (simp add: h length_nat_to_be)
  show "unpack_be k header = Inr n"
    using n by (simp add: unpack_be_def h length_nat_to_be be_to_nat_nat_to_be)
qed


text \<open>What \<^verbatim>\<open>recv_json\<close> does, by the bytes the socket still delivers.\<close>

lemma recv_json_cases:
  "fst (recv_json loads sk) =
     (if payload sk = [] then Inl ConnectionError
      else if length (payload sk) < 4 then Inl StructError
      else loads (take (be_to_nat (take 4 (payload sk))) (drop 4 (payload sk))))"
proof -
  obtain raw sk1 where r1: "recvall sk 4 = (raw, sk1)" by (cases "recvall sk 4")
  note p1 = recvall_payload [OF r1]
  show ?thesis
  proof (cases "length (payload sk) < 4")
    case True
    with p1(1) have "length raw \<noteq> 4" by simp
    with r1 p1(1) True show ?thesis
      by (simp add: recv_json_def unpack_be_def)
  next
    case False
    with p1(1) have l: "length raw = 4" by simp
    then have ne: "raw \<noteq> []" by auto
    obtain data sk2 where r2: "recvall sk1 (be_to_nat raw) = (data, sk2)"
      by (cases "recvall sk1 (be_to_nat raw)")
    note p2 = recvall_payload [OF r2]
    from False have "payload sk \<noteq> []" by auto
    with r1 r2 l ne False p1 p2 show ?thesis
      by (simp add: recv_json_def unpack_be_def)
  qed
qed

text \<open>
  Claim C2, evaluated on three streams. A stream that closes before any byte makes
  \<^verbatim>\<open>recv_json\<close> raise \<^verbatim>\<open>ConnectionError\<close>. A stream that closes after two bytes
  of the length prefix makes it raise \<^verbatim>\<open>struct.error\<close> instead. A stream that
  announces five payload bytes and closes after two raises nothing in the framing
  layer: the two bytes go to the decoder as if they were the message.
\<close>

theorem recv_json_short_reads:
  "recv_json loads \<lparr>inbound = [], outbound = []\<rparr> =
     (Inl ConnectionError, \<lparr>inbound = [], outbound = []\<rparr>) \<and>
   recv_json loads \<lparr>inbound = [[0, 0]], outbound = []\<rparr> =
     (Inl StructError, \<lparr>inbound = [], outbound = []\<rparr>) \<and>
   recv_json loads \<lparr>inbound = [[0, 0, 0, 5], [0x31, 0x32]], outbound = []\<rparr> =
     (loads [0x31, 0x32], \<lparr>inbound = [], outbound = []\<rparr>)"
  by (simp add: recv_json_def recvall_def recvall_loop.simps recv_def unpack_be_def
      be_to_nat_def)




section \<open>Receiving a file\<close>

lemma recv_file_loop_payload:
  "recv_file_loop sk fsize written writes = (w', writes', sk') \<Longrightarrow>
   concat writes' = concat writes @ take (fsize - written) (payload sk) \<and>
   w' = written + length (take (fsize - written) (payload sk)) \<and>
   payload sk' = drop (fsize - written) (payload sk) \<and>
   outbound sk' = outbound sk \<and>
   (\<forall>ch \<in> set writes'. ch \<in> set writes \<or> (ch \<noteq> [] \<and> length ch \<le> 1024 * 256))"
proof (induction sk fsize written writes arbitrary: w' writes' sk' rule: recv_file_loop.induct)
  case (1 sk fsize written writes)
  show ?case
  proof (cases "written < fsize")
    case False
    with "1.prems" show ?thesis by (simp add: recv_file_loop.simps [of sk])
  next
    case less: True
    let ?k = "fsize - written"
    let ?n = "min (1024 * 256) ?k"
    obtain chunk sk1 where r: "recv sk ?n = (chunk, sk1)" by (cases "recv sk ?n")
    from less have pos: "0 < ?n" by simp
    note rp = recv_payload [OF pos r]
    from rp(3) have le: "length chunk \<le> ?k" and bound: "length chunk \<le> 1024 * 256" by simp_all
    show ?thesis
    proof (cases "chunk = []")
      case True
      with "1.prems" less r have "w' = written" "writes' = writes" "sk' = sk1"
        by (simp_all add: recv_file_loop.simps [of sk])
      moreover from True rp(4) have "payload sk = []" by simp
      ultimately show ?thesis using rp(2,5) by simp
    next
      case False
      with "1.prems" less r
      have "recv_file_loop sk1 fsize (written + length chunk) (writes @ [chunk]) = (w', writes', sk')"
        by (simp add: recv_file_loop.simps [of sk])
      from "1.IH" [OF less r [symmetric] False this]
      have ih: "concat writes' = concat (writes @ [chunk]) @
            take (fsize - (written + length chunk)) (payload sk1)"
        "w' = written + length chunk +
            length (take (fsize - (written + length chunk)) (payload sk1))"
        "payload sk' = drop (fsize - (written + length chunk)) (payload sk1)"
        "outbound sk' = outbound sk1"
        "\<forall>ch \<in> set writes'. ch \<in> set (writes @ [chunk]) \<or>
            (ch \<noteq> [] \<and> length ch \<le> 1024 * 256)"
        by simp_all
      have tt: "take (length chunk) (payload sk) @
          take (?k - length chunk) (drop (length chunk) (payload sk)) = take ?k (payload sk)"
        by (rule take_then_take [OF le])
      have c: "concat writes' = concat writes @ take ?k (payload sk)"
      proof -
        have "concat writes' = concat writes @ (take (length chunk) (payload sk) @
            take (?k - length chunk) (drop (length chunk) (payload sk)))"
          using ih(1) rp(1,2) by simp
        with tt show ?thesis by simp
      qed
      have w: "w' = written + length (take ?k (payload sk))"
      proof -
        have "length (take ?k (payload sk)) =
            length (take (length chunk) (payload sk)) +
            length (take (?k - length chunk) (drop (length chunk) (payload sk)))"
          by (simp only: tt [symmetric] length_append)
        moreover have "length (take (length chunk) (payload sk)) = length chunk"
          using rp(1) by simp
        ultimately show ?thesis using ih(2) rp(2) by simp
      qed
      have p: "payload sk' = drop ?k (payload sk)"
      proof -
        have "payload sk' = drop (?k - length chunk) (drop (length chunk) (payload sk))"
          using ih(3) rp(2) by simp
        moreover have "?k - length chunk + length chunk = ?k" using le by arith
        ultimately show ?thesis by (simp only: drop_drop)
      qed
      have b: "\<forall>ch \<in> set writes'. ch \<in> set writes \<or> (ch \<noteq> [] \<and> length ch \<le> 1024 * 256)"
        using ih(5) False bound by auto
      from c w p b ih(4) rp(5) show ?thesis by simp
    qed
  qed
qed




lemma lookup_write_file:
  "lookup (write_file fs p content) q = (if q = p then Some (RegFile content) else lookup fs q)"
  by (simp add: lookup_def write_file_def AList.update_conv')


text \<open>The four ways through \<^verbatim>\<open>recv_file\<close>.\<close>

lemma recv_file_cases:
  fixes sk dest fs
  defines "r \<equiv> recv_file sk dest fs"
  defines "fsize \<equiv> be_to_nat (take 8 (payload sk))"
  defines "body \<equiv> drop 8 (payload sk)"
  shows "length (payload sk) < 8 \<Longrightarrow>
           outcome r = Inl StructError \<and> logged_written r = None \<and> chunks_written r = [] \<and>
           payload (sock_after r) = body \<and> fs_after r = fs"
    and "8 \<le> length (payload sk) \<Longrightarrow> mkdir_parents fs (butlast dest) = Inl err \<Longrightarrow>
           outcome r = Inl err \<and> logged_written r = None \<and> chunks_written r = [] \<and>
           payload (sock_after r) = body \<and> fs_after r = fs"
    and "8 \<le> length (payload sk) \<Longrightarrow> mkdir_parents fs (butlast dest) = Inr fs1 \<Longrightarrow>
         open_wb fs1 dest = Inl err \<Longrightarrow>
           outcome r = Inl err \<and> logged_written r = None \<and> chunks_written r = [] \<and>
           payload (sock_after r) = body \<and> fs_after r = fs1"
    and "8 \<le> length (payload sk) \<Longrightarrow> mkdir_parents fs (butlast dest) = Inr fs1 \<Longrightarrow>
         open_wb fs1 dest = Inr fs2 \<Longrightarrow>
           outcome r = Inr NoneValue \<and>
           logged_written r = Some (length (take fsize body)) \<and>
           concat (chunks_written r) = take fsize body \<and>
           (\<forall>ch \<in> set (chunks_written r). ch \<noteq> [] \<and> length ch \<le> 1024 * 256) \<and>
           payload (sock_after r) = drop fsize body \<and>
           fs_after r = write_file fs2 dest (take fsize body)"
proof -
  obtain raw sk1 where r1: "recvall sk 8 = (raw, sk1)" by (cases "recvall sk 8")
  note p1 = recvall_payload [OF r1]
  have body: "payload sk1 = body" by (simp add: body_def p1(2))
  show "length (payload sk) < 8 \<Longrightarrow>
           outcome r = Inl StructError \<and> logged_written r = None \<and> chunks_written r = [] \<and>
           payload (sock_after r) = body \<and> fs_after r = fs"
    using r1 p1(1) body by (simp add: r_def recv_file_def unpack_be_def)
  assume full: "8 \<le> length (payload sk)"
  with p1(1) have u: "unpack_be 8 raw = Inr fsize"
    by (simp add: unpack_be_def fsize_def)
  show "mkdir_parents fs (butlast dest) = Inl err \<Longrightarrow>
           outcome r = Inl err \<and> logged_written r = None \<and> chunks_written r = [] \<and>
           payload (sock_after r) = body \<and> fs_after r = fs"
    using r1 u body by (simp add: r_def recv_file_def)
  assume mk: "mkdir_parents fs (butlast dest) = Inr fs1"
  show "open_wb fs1 dest = Inl err \<Longrightarrow>
           outcome r = Inl err \<and> logged_written r = None \<and> chunks_written r = [] \<and>
           payload (sock_after r) = body \<and> fs_after r = fs1"
    using r1 u mk body by (simp add: r_def recv_file_def)
  assume op: "open_wb fs1 dest = Inr fs2"
  obtain written writes sk2 where
    l: "recv_file_loop sk1 fsize 0 [] = (written, writes, sk2)"
    by (cases "recv_file_loop sk1 fsize 0 []")
  from recv_file_loop_payload [OF l] body
  have lp: "concat writes = take fsize body" "written = length (take fsize body)"
    "payload sk2 = drop fsize body"
    "\<forall>ch \<in> set writes. ch \<noteq> [] \<and> length ch \<le> 1024 * 256"
    by simp_all
  have "r = \<lparr>outcome = Inr NoneValue, logged_written = Some written,
      chunks_written = writes, sock_after = sk2,
      fs_after = write_file fs2 dest (concat writes)\<rparr>"
    using r1 u mk op l by (simp add: r_def recv_file_def)
  with lp show "outcome r = Inr NoneValue \<and>
           logged_written r = Some (length (take fsize body)) \<and>
           concat (chunks_written r) = take fsize body \<and>
           (\<forall>ch \<in> set (chunks_written r). ch \<noteq> [] \<and> length ch \<le> 1024 * 256) \<and>
           payload (sock_after r) = drop fsize body \<and>
           fs_after r = write_file fs2 dest (take fsize body)"
    by simp
qed

lemma drop_length_take: "drop (length (take n xs)) xs = drop n xs"
  by (cases "n \<le> length xs") (simp_all add: min_def)







text \<open>
  Claim C10. Whatever the socket holds, a \<^verbatim>\<open>recv_file\<close> that returns has written no
  more bytes than the size it read from the first eight, the destination holds just
  the bytes written, and what the socket still delivers is what followed the eight
  bytes and the bytes written. A \<^verbatim>\<open>recv_file\<close> that raises has written no chunk and
  has read the size prefix only.
\<close>

theorem recv_file_at_most_declared_size:
  "(let r = recv_file sk dest fs; n = length (concat (chunks_written r))
    in case outcome r of
         Inl err \<Rightarrow>
           chunks_written r = [] \<and> logged_written r = None \<and>
           payload (sock_after r) = drop 8 (payload sk)
       | Inr v \<Rightarrow>
           8 \<le> length (payload sk) \<and>
           n \<le> be_to_nat (take 8 (payload sk)) \<and>
           logged_written r = Some n \<and>
           lookup (fs_after r) dest = Some (RegFile (concat (chunks_written r))) \<and>
           payload (sock_after r) = drop (8 + n) (payload sk))"
proof (cases "length (payload sk) < 8")
  case True
  from recv_file_cases(1) [OF True] show ?thesis by (simp add: Let_def)
next
  case False
  then have full: "8 \<le> length (payload sk)" by simp
  show ?thesis
  proof (cases "mkdir_parents fs (butlast dest)")
    case (Inl err)
    from recv_file_cases(2) [OF full Inl] show ?thesis by (simp add: Let_def)
  next
    case (Inr fs1)
    show ?thesis
    proof (cases "open_wb fs1 dest")
      case (Inl err)
      from recv_file_cases(3) [OF full Inr Inl] show ?thesis by (simp add: Let_def)
    next
      case open_ok: (Inr fs2)
      let ?r = "recv_file sk dest fs"
      let ?fsize = "be_to_nat (take 8 (payload sk))"
      let ?body = "drop 8 (payload sk)"
      note c = recv_file_cases(4) [OF full Inr open_ok]
      have n: "length (concat (chunks_written ?r)) = length (take ?fsize ?body)"
        using c by simp
      have le: "length (take ?fsize ?body) \<le> ?fsize" by simp
      have "drop (8 + length (take ?fsize ?body)) (payload sk) =
          drop (length (take ?fsize ?body)) ?body"
        by (simp add: add.commute)
      also have "\<dots> = drop ?fsize ?body" by (rule drop_length_take)
      finally have d: "payload (sock_after ?r) =
          drop (8 + length (take ?fsize ?body)) (payload sk)"
        using c by simp
      have f: "lookup (fs_after ?r) dest = Some (RegFile (concat (chunks_written ?r)))"
        using c by (simp add: lookup_write_file)
      from c have o: "outcome ?r = Inr NoneValue"
        and lw: "logged_written ?r = Some (length (take ?fsize ?body))"
        by simp_all
      show ?thesis
        using o n full le lw d f by (simp add: Let_def)
    qed
  qed
qed

theorem recv_file_at_most_declared_size_witness:
  "be_to_nat (take 8 (payload demo_long_sock)) = 2 \<and>
   payload demo_long_sock = [0, 0, 0, 0, 0, 0, 0, 2, 0x61, 0x62, 0x63, 0x64] \<and>
   outcome (recv_file demo_long_sock [''assets'', ''7'', ''a.crp''] demo_fs) = Inr NoneValue \<and>
   chunks_written (recv_file demo_long_sock [''assets'', ''7'', ''a.crp''] demo_fs) =
     [[0x61], [0x62]] \<and>
   lookup (fs_after (recv_file demo_long_sock [''assets'', ''7'', ''a.crp''] demo_fs))
     [''assets'', ''7'', ''a.crp''] = Some (RegFile [0x61, 0x62]) \<and>
   payload (sock_after (recv_file demo_long_sock [''assets'', ''7'', ''a.crp''] demo_fs)) =
     [0x63, 0x64]"
proof -
  let ?d = "[''assets'', ''7'', ''a.crp'']"
  let ?r = "recv_file demo_long_sock ?d demo_fs"
  have p: "payload demo_long_sock = [0, 0, 0, 0, 0, 0, 0, 2, 0x61, 0x62, 0x63, 0x64]"
    by (simp add: payload_def demo_long_sock_def)
  have sz: "be_to_nat (take 8 (payload demo_long_sock)) = 2" by (simp add: p be_to_nat_def)
  have ev1: "outcome ?r = Inr NoneValue"
    by (simp add: recv_file_def recvall_def recvall_loop.simps recv_def demo_long_sock_def
        unpack_be_def be_to_nat_def mkdir_parents_def is_file_def is_dir_def path_exists_def
        lookup_def demo_fs_def open_wb_def write_file_def recv_file_loop.simps)
  have ev2: "chunks_written ?r = [[0x61], [0x62]]"
    by (simp add: recv_file_def recvall_def recvall_loop.simps recv_def demo_long_sock_def
        unpack_be_def be_to_nat_def mkdir_parents_def is_file_def is_dir_def path_exists_def
        lookup_def demo_fs_def open_wb_def write_file_def recv_file_loop.simps)
  note ev = ev1 ev2
  from recv_file_at_most_declared_size [of demo_long_sock ?d demo_fs]
  have "lookup (fs_after ?r) ?d = Some (RegFile [0x61, 0x62]) \<and>
      payload (sock_after ?r) = [0x63, 0x64]"
    by (simp add: Let_def ev p)
  with p sz ev show ?thesis by simp
qed

end
